theory Spec2Isabelle
  imports Main "HOL-Library.Multiset"
begin

section \<open>Strings, character classes and the pieces of Python the code relies on\<close>

text \<open>
  A Python \<^verbatim>\<open>str\<close> is a list of code points, a character of the model is a code point up to
  U+00FF (\<open>of_char\<close> gives its number) and a \<^typ>\<open>string\<close> is a text of such characters.
  On every one of them the character classes are those of Python 3: \<^verbatim>\<open>str.isalpha\<close>, and
  the classes \<^verbatim>\<open>\w\<close> and \<^verbatim>\<open>\d\<close> of a regular expression on a \<^verbatim>\<open>str\<close>, which follow the
  Unicode database (the letters of Latin-1 are alphabetic, its superscript digits and
  fractions are word characters). \<open>is_word\<close> is the class \<^verbatim>\<open>[\w\d]\<close> of the pattern.
\<close>

definition isalpha :: "char \<Rightarrow> bool" where
  "isalpha c =
     (let n = (of_char c :: nat) in
      (65 \<le> n \<and> n \<le> 90) \<or> (97 \<le> n \<and> n \<le> 122) \<or> n = 170 \<or> n = 181 \<or> n = 186 \<or>
      (192 \<le> n \<and> n \<le> 214) \<or> (216 \<le> n \<and> n \<le> 246) \<or> (248 \<le> n \<and> n \<le> 255))"

definition re_d :: "char \<Rightarrow> bool" where
  "re_d c = (let n = (of_char c :: nat) in 48 \<le> n \<and> n \<le> 57)"

definition re_w :: "char \<Rightarrow> bool" where
  "re_w c =
     (let n = (of_char c :: nat) in
      (48 \<le> n \<and> n \<le> 57) \<or> (65 \<le> n \<and> n \<le> 90) \<or> n = 95 \<or> (97 \<le> n \<and> n \<le> 122) \<or>
      n = 170 \<or> n = 178 \<or> n = 179 \<or> n = 181 \<or> n = 185 \<or> n = 186 \<or>
      (188 \<le> n \<and> n \<le> 190) \<or> (192 \<le> n \<and> n \<le> 214) \<or> (216 \<le> n \<and> n \<le> 246) \<or>
      (248 \<le> n \<and> n \<le> 255))"

definition is_word :: "char \<Rightarrow> bool" where
  "is_word c = (re_w c \<or> re_d c)"

text \<open>\<^verbatim>\<open>s.startswith(p)\<close>, and \<^verbatim>\<open>sub in s\<close> for strings (a substring search).\<close>

definition startswith :: "string \<Rightarrow> string \<Rightarrow> bool" where
  "startswith p s = (take (length p) s = p)"

fun contains :: "string \<Rightarrow> string \<Rightarrow> bool" where
  "contains sub [] = (sub = [])"
| "contains sub (c # cs) = (startswith sub (c # cs) \<or> contains sub cs)"

text \<open>\<^verbatim>\<open>str(i)\<close> for a Python integer, as the f-strings of the code format an index.\<close>

fun digits :: "nat \<Rightarrow> string" where
  "digits n = (if n < 10 then [''0123456789'' ! n] else digits (n div 10) @ [''0123456789'' ! (n mod 10)])"

declare digits.simps [simp del]

definition str_int :: "int \<Rightarrow> string" where
  "str_int i = (if i < 0 then CHR ''-'' # digits (nat (- i)) else digits (nat i))"

text \<open>
  \<^verbatim>\<open>url.rsplit('/', 1)[0]\<close>: the text before the last slash, the whole string when it has
  no slash.
\<close>

definition rsplit_head :: "string \<Rightarrow> string" where
  "rsplit_head s =
     (if CHR ''/'' \<in> set s then rev (tl (dropWhile (\<lambda>c. c \<noteq> CHR ''/'') (rev s))) else s)"

text \<open>
  \<^verbatim>\<open>os.path.basename(url)\<close> and \<^verbatim>\<open>os.path.join(folder, filename)\<close> with the POSIX
  separator.
\<close>

definition basename :: "string \<Rightarrow> string" where
  "basename s = rev (takeWhile (\<lambda>c. c \<noteq> CHR ''/'') (rev s))"

definition path_join :: "string \<Rightarrow> string \<Rightarrow> string" where
  "path_join folder filename =
     (if startswith ''/'' filename then filename
      else if folder = [] \<or> last folder = CHR ''/'' then folder @ filename
      else folder @ ''/'' @ filename)"

section \<open>Pattern extraction: \<^verbatim>\<open>extract_base_url_and_name\<close>\<close>

text \<open>
  \<^verbatim>\<open>re.search(r"/([\w\d]+)/index\.html", url)\<close>. The matcher tries every start position
  from the left; at a slash it takes the longest run of word characters and gives
  characters back one at a time (the group needs at least one) until the literal
  \<^verbatim>\<open>/index.html\<close> follows. \<open>re_search\<close> returns \<^verbatim>\<open>match.group(1)\<close>.
\<close>

definition match_token :: "string \<Rightarrow> string option" where
  "match_token cs =
     map_option (\<lambda>n. take n cs)
       (find (\<lambda>n. startswith ''/index.html'' (drop n cs))
          (rev [1 ..< Suc (length (takeWhile is_word cs))]))"

definition match_at :: "string \<Rightarrow> string option" where
  "match_at s = (case s of [] \<Rightarrow> None
                 | c # cs \<Rightarrow> if c = CHR ''/'' then match_token cs else None)"

fun re_search :: "string \<Rightarrow> string option" where
  "re_search [] = None"
| "re_search (c # cs) =
     (case match_at (c # cs) of Some tok \<Rightarrow> Some tok | None \<Rightarrow> re_search cs)"

datatype py_exception = ValueError string | OSError

definition extract_base_url_and_name :: "string \<Rightarrow> py_exception + (string \<times> string)" where
  "extract_base_url_and_name url =
     (case re_search url of
        None \<Rightarrow> Inl (ValueError ''Invalid URL format. Ensure the URL contains '/index.html'.'')
      | Some tok \<Rightarrow> Inr (rsplit_head url, filter isalpha tok))"

text \<open>
  Where the pattern occurs in a URL: after the text \<open>pre\<close> come a slash, the non-empty run
  \<open>tok\<close> of word characters and the literal \<^verbatim>\<open>/index.html\<close>, whatever follows.
\<close>

definition pattern_at :: "string \<Rightarrow> string \<Rightarrow> string \<Rightarrow> string \<Rightarrow> bool" where
  "pattern_at url pre tok post =
     (url = pre @ ''/'' @ tok @ ''/index.html'' @ post \<and> tok \<noteq> [] \<and> list_all is_word tok)"

definition contains_pattern :: "string \<Rightarrow> string \<Rightarrow> bool" where
  "contains_pattern url tok = (\<exists>pre post. pattern_at url pre tok post)"

text \<open>
  The specification speaks of a URL that has a path segment \<^verbatim>\<open>/<token>/index.html\<close>. Read
  on the URL's own structure: the path is what follows the scheme and the authority, up to
  a query or a fragment; its segments are the texts between its slashes; the URL has such
  a segment when a non-empty run of word characters is a whole segment and the next
  segment is \<^verbatim>\<open>index.html\<close>, whole too.
\<close>

fun after_scheme :: "string \<Rightarrow> string" where
  "after_scheme [] = []"
| "after_scheme (c # cs) = (if startswith ''://'' (c # cs) then drop 3 (c # cs) else after_scheme cs)"

definition url_path :: "string \<Rightarrow> string" where
  "url_path url =
     takeWhile (\<lambda>c. c \<noteq> CHR ''?'' \<and> c \<noteq> CHR ''#'')
       (dropWhile (\<lambda>c. c \<noteq> CHR ''/'') (if contains ''://'' url then after_scheme url else url))"

fun split_on :: "char \<Rightarrow> string \<Rightarrow> string list" where
  "split_on d [] = [[]]"
| "split_on d (c # cs) =
     (if c = d then [] # split_on d cs
      else (case split_on d cs of [] \<Rightarrow> [[c]] | s # ss \<Rightarrow> (c # s) # ss))"

definition index_segments :: "string \<Rightarrow> string list" where
  "index_segments url =
     (let segments = split_on CHR ''/'' (url_path url)
      in map fst (filter (\<lambda>(t, n). n = ''index.html'' \<and> t \<noteq> [] \<and> list_all is_word t)
                    (zip segments (tl segments))))"

definition has_index_segment :: "string \<Rightarrow> bool" where
  "has_index_segment url = (index_segments url \<noteq> [])"

section \<open>Candidate generation: \<^verbatim>\<open>generate_image_urls\<close>\<close>

text \<open>The f-string \<^verbatim>\<open>f"{base_url}/images/{name}{i}.jpg"\<close>, written the same in every version.\<close>

definition image_url :: "string \<Rightarrow> string \<Rightarrow> int \<Rightarrow> string" where
  "image_url base_url name i = base_url @ ''/images/'' @ name @ str_int i @ ''.jpg''"

text \<open>The comprehension over \<^verbatim>\<open>range(1, max_attempts + 1)\<close>.\<close>

definition generate_image_urls :: "string \<Rightarrow> string \<Rightarrow> int \<Rightarrow> string list" where
  "generate_image_urls base_url name max_attempts = map (image_url base_url name) [1 .. max_attempts]"

text \<open>\<^verbatim>\<open>fetch_all_links\<close> of version 1.3 is the same comprehension, with the default bound 100 at its only call.\<close>

definition fetch_all_links :: "string \<Rightarrow> string \<Rightarrow> int \<Rightarrow> string list" where
  "fetch_all_links base_url name max_attempts = map (image_url base_url name) [1 .. max_attempts]"

section \<open>The transport and the existence probers\<close>

text \<open>
  The network is a parameter of the model: a transport maps a URL to what the request
  does, a response or one of the exceptions of \<^verbatim>\<open>requests\<close>, every one of them a subclass of
  \<^verbatim>\<open>requests.RequestException\<close>. A streamed body is the list of chunks \<^verbatim>\<open>iter_content\<close>
  yields; \<open>breaks_after = Some k\<close> is a connection that breaks once \<open>k\<close> chunks are
  delivered, \<^verbatim>\<open>iter_content\<close> raising there.
\<close>

datatype request_exception = ConnectionError | Timeout | HTTPError | ChunkedEncodingError

record response =
  status_code :: int
  headers :: "string \<rightharpoonup> string"
  body_chunks :: "string list"
  breaks_after :: "nat option"

datatype http_result = Raised request_exception | Response response

type_synonym transport = "string \<Rightarrow> http_result"

text \<open>\<^verbatim>\<open>response.headers.get('Content-Type', '')\<close>.\<close>

definition content_type :: "response \<Rightarrow> string" where
  "content_type r = (case headers r ''Content-Type'' of None \<Rightarrow> [] | Some v \<Rightarrow> v)"

text \<open>Version 1.2: \<^verbatim>\<open>is_image_url\<close>; the parameter \<open>head\<close> is what \<^verbatim>\<open>requests.head\<close> does.\<close>

definition is_image_url :: "transport \<Rightarrow> string \<Rightarrow> bool" where
  "is_image_url head url =
     (case head url of
        Response r \<Rightarrow> status_code r = 200 \<and> contains ''image'' (content_type r)
      | Raised e \<Rightarrow> False)"

text \<open>Version 1.1: \<^verbatim>\<open>validate_url\<close>.\<close>

definition validate_url :: "transport \<Rightarrow> string \<Rightarrow> bool" where
  "validate_url head url =
     (case head url of Response r \<Rightarrow> status_code r = 200 | Raised e \<Rightarrow> False)"

text \<open>Version 1.3: \<^verbatim>\<open>validate_image_urls\<close>, the loop with its accumulator \<^verbatim>\<open>valid_urls\<close>.\<close>

fun validate_loop :: "transport \<Rightarrow> string list \<Rightarrow> string list \<Rightarrow> string list" where
  "validate_loop head [] valid_urls = valid_urls"
| "validate_loop head (url # urls) valid_urls =
     (case head url of
        Response r \<Rightarrow>
          if status_code r = 200 \<and> contains ''image'' (content_type r)
          then validate_loop head urls (valid_urls @ [url])
          else validate_loop head urls valid_urls
      | Raised e \<Rightarrow> validate_loop head urls valid_urls)"

definition validate_image_urls :: "transport \<Rightarrow> string list \<Rightarrow> string list" where
  "validate_image_urls head urls = validate_loop head urls []"

section \<open>Adaptive discovery: \<^verbatim>\<open>discover_image_urls\<close> of version 1.2\<close>

text \<open>
  The \<^verbatim>\<open>while failures < 3\<close> loop. It may run forever, so it is a partial function and
  not returning is the value \<open>None\<close>. Beside \<^verbatim>\<open>discovered_urls\<close> the model returns the
  list of the URLs it probed, in order: the requests are the loop's effect on the network.
\<close>

partial_function (option) discover_loop ::
  "transport \<Rightarrow> string \<Rightarrow> string \<Rightarrow> string list \<Rightarrow> string list \<Rightarrow> nat \<Rightarrow> int
     \<Rightarrow> (string list \<times> string list) option" where
  "discover_loop head base_url name probed discovered_urls failures index =
     (if failures < 3 then
        (if is_image_url head (image_url base_url name index)
         then discover_loop head base_url name (probed @ [image_url base_url name index])
                (discovered_urls @ [image_url base_url name index]) 0 (index + 1)
         else discover_loop head base_url name (probed @ [image_url base_url name index])
                discovered_urls (failures + 1) (index + 1))
      else Some (discovered_urls, probed))"

declare discover_loop.simps [code]

definition discover_image_urls :: "transport \<Rightarrow> string \<Rightarrow> string \<Rightarrow> (string list \<times> string list) option" where
  "discover_image_urls head base_url name = discover_loop head base_url name [] [] 0 1"

section \<open>Downloading: \<^verbatim>\<open>download_image\<close> and \<^verbatim>\<open>download_images\<close>\<close>

text \<open>
  The file system is a map from paths to contents. What the disk does to a path is a
  parameter too: nothing, \<^verbatim>\<open>open\<close> raising \<^verbatim>\<open>OSError\<close>, or room for \<open>n\<close> bytes of the file
  only.
\<close>

type_synonym files = "string \<rightharpoonup> string"

datatype fs_fault = NoFault | OpenFails | WriteFails nat

text \<open>
  \<^verbatim>\<open>for chunk in response.iter_content(1024): f.write(chunk)\<close> over the chunks that arrive.
  The file object of \<^verbatim>\<open>open(file_path, 'wb')\<close> is buffered: \<^verbatim>\<open>f.write\<close> hands the bytes to
  the buffer, and the buffer goes to the disk when it is full and when the \<^verbatim>\<open>with\<close> block
  closes the file, also when the block is left by an exception. \<open>write_chunks\<close> collects
  the bytes handed over. On a disk with room for \<open>n\<close> bytes the flush that goes beyond
  them raises \<^verbatim>\<open>OSError\<close>, inside one of the writes or at the close, and the file keeps the
  first \<open>n\<close> bytes, wherever a chunk ends; \<open>flushed\<close> gives whether all bytes reached the
  disk, and what the file holds.
\<close>

fun write_chunks :: "string list \<Rightarrow> string \<Rightarrow> string" where
  "write_chunks [] written = written"
| "write_chunks (chunk # chunks) written = write_chunks chunks (written @ chunk)"

definition flushed :: "fs_fault \<Rightarrow> string \<Rightarrow> bool \<times> string" where
  "flushed fault written =
     (case fault of
        WriteFails n \<Rightarrow> if n < length written then (False, take n written) else (True, written)
      | _ \<Rightarrow> (True, written))"

definition delivered :: "response \<Rightarrow> string list" where
  "delivered r = (case breaks_after r of None \<Rightarrow> body_chunks r | Some k \<Rightarrow> take k (body_chunks r))"

text \<open>
  Versions 1.3 and 1.4: \<^verbatim>\<open>download_image\<close>. Only \<^verbatim>\<open>requests.RequestException\<close> is caught;
  an \<^verbatim>\<open>OSError\<close> of \<^verbatim>\<open>open\<close>, of a write or of the close leaves the function as an
  exception (\<open>Inl\<close>), also when the stream broke first: the error of the close replaces
  the one of the stream. \<^verbatim>\<open>raise_for_status\<close> raises for a status from 400 to 599.
\<close>

definition download_image ::
  "transport \<Rightarrow> (string \<Rightarrow> fs_fault) \<Rightarrow> string \<Rightarrow> string \<Rightarrow> files \<Rightarrow> (py_exception + bool) \<times> files" where
  "download_image get disk url folder fs =
     (case get url of
        Raised e \<Rightarrow> (Inr False, fs)
      | Response r \<Rightarrow>
          if 400 \<le> status_code r \<and> status_code r < 600 then (Inr False, fs)
          else
            (let file_path = path_join folder (basename url) in
             if disk file_path = OpenFails then (Inl OSError, fs)
             else
               (case flushed (disk file_path) (write_chunks (delivered r) []) of
                  (False, stored) \<Rightarrow> (Inl OSError, fs(file_path \<mapsto> stored))
                | (True, stored) \<Rightarrow> (Inr (breaks_after r = None), fs(file_path \<mapsto> stored)))))"


text \<open>
  \<^verbatim>\<open>download_images\<close>: one future per submitted URL; \<^verbatim>\<open>as_completed\<close> yields every future
  once, in an order the scheduler decides, given here as the list \<open>completion\<close> of their
  positions in \<^verbatim>\<open>urls\<close> (a permutation of \<open>[0..<length urls]\<close>, whatever the width of the
  pool). \<^verbatim>\<open>future.result()\<close> returns the worker's value or raises what the worker raised;
  the loop has no handler, so the first exception leaves \<^verbatim>\<open>download_images\<close>. A worker's
  result does not depend on what the other workers have written. The folder is taken to
  exist: \<^verbatim>\<open>os.makedirs\<close> and the progress bar are left out.
\<close>

fun count_results :: "(py_exception + bool) list \<Rightarrow> nat \<Rightarrow> nat \<Rightarrow> py_exception + (nat \<times> nat)" where
  "count_results [] success_count fail_count = Inr (success_count, fail_count)"
| "count_results (Inl e # rs) success_count fail_count = Inl e"
| "count_results (Inr True # rs) success_count fail_count = count_results rs (success_count + 1) fail_count"
| "count_results (Inr False # rs) success_count fail_count = count_results rs success_count (fail_count + 1)"

definition download_images ::
  "transport \<Rightarrow> (string \<Rightarrow> fs_fault) \<Rightarrow> string list \<Rightarrow> string \<Rightarrow> files \<Rightarrow> nat list
     \<Rightarrow> py_exception + (nat \<times> nat)" where
  "download_images get disk urls folder fs completion =
     (let futures = map (\<lambda>url. fst (download_image get disk url folder fs)) urls
      in count_results (map (\<lambda>i. futures ! i) completion) 0 0)"

section \<open>The drivers: \<^verbatim>\<open>main\<close> of versions 1.4 and 1.3\<close>

text \<open>
  The \<^verbatim>\<open>try\<close> block of \<^verbatim>\<open>main\<close>, from the values read at the prompts (stripped, the
  bound already an integer, the folder already joined to the root folder) to what is printed:
  the three numbers of the completion line, the "no valid images" line, or the error.
\<close>

datatype report = Completed nat nat nat | NoValidImages | Failed py_exception

definition main ::
  "transport \<Rightarrow> (string \<Rightarrow> fs_fault) \<Rightarrow> string \<Rightarrow> string \<Rightarrow> int \<Rightarrow> files \<Rightarrow> nat list \<Rightarrow> report" where
  "main get disk original_url download_folder max_attempts fs completion =
     (case extract_base_url_and_name original_url of
        Inl e \<Rightarrow> Failed e
      | Inr (base_url, name) \<Rightarrow>
          (let all_urls = generate_image_urls base_url name max_attempts in
           case download_images get disk all_urls download_folder fs completion of
             Inl e \<Rightarrow> Failed e
           | Inr (success_count, fail_count) \<Rightarrow> Completed (length all_urls) success_count fail_count))"

definition main_v1_3 ::
  "transport \<Rightarrow> transport \<Rightarrow> (string \<Rightarrow> fs_fault) \<Rightarrow> string \<Rightarrow> string \<Rightarrow> files \<Rightarrow> nat list \<Rightarrow> report" where
  "main_v1_3 head get disk original_url download_folder fs completion =
     (case extract_base_url_and_name original_url of
        Inl e \<Rightarrow> Failed e
      | Inr (base_url, name) \<Rightarrow>
          (let all_urls = fetch_all_links base_url name 100;
               valid_urls = validate_image_urls head all_urls
           in if valid_urls \<noteq> [] then
                (case download_images get disk valid_urls download_folder fs completion of
                   Inl e \<Rightarrow> Failed e
                 | Inr (success_count, fail_count) \<Rightarrow> Completed (length valid_urls) success_count fail_count)
              else NoValidImages))"

section \<open>Notions of the specification and synthetic environments\<close>

text \<open>
  A transport fails a download when the request raises, the status is an error status,
  or the stream breaks before its end.
\<close>

definition transport_fails :: "transport \<Rightarrow> string \<Rightarrow> bool" where
  "transport_fails get url =
     (case get url of
        Raised e \<Rightarrow> True
      | Response r \<Rightarrow> (400 \<le> status_code r \<and> status_code r < 600) \<or> breaks_after r \<noteq> None)"

text \<open>
  The prober as an oracle on indices: what \<^verbatim>\<open>is_image_url\<close> answers for the candidate of
  index \<open>i\<close>. \<open>failures_after ok f i n\<close> is the value of the counter \<^verbatim>\<open>failures\<close> after
  \<open>n\<close> more iterations of the discovery loop entered with the counter \<open>f\<close> at index \<open>i\<close>.
\<close>

definition accepted :: "transport \<Rightarrow> string \<Rightarrow> string \<Rightarrow> int \<Rightarrow> bool" where
  "accepted head base_url name i = is_image_url head (image_url base_url name i)"

fun failures_after :: "(int \<Rightarrow> bool) \<Rightarrow> nat \<Rightarrow> int \<Rightarrow> nat \<Rightarrow> nat" where
  "failures_after ok f i 0 = f"
| "failures_after ok f i (Suc n) = (if ok (i + int n) then 0 else Suc (failures_after ok f i n))"

text \<open>
  Synthetic transports and disks for the examples: a server that has an image (two
  chunks, \<^verbatim>\<open>ab\<close> and \<^verbatim>\<open>cd\<close>) at the listed URLs and answers 404 elsewhere; a server whose
  connection breaks after the first chunk; a server that answers every probe with an
  HTML page; a server that has an image at every URL; a server that never answers in
  time; a disk without faults and a disk with one fault at one path. \<open>accented_url\<close> is
  a URL with the letter U+00E9 in two of its directories.
\<close>

definition image_response :: response where
  "image_response = \<lparr>status_code = 200, headers = [''Content-Type'' \<mapsto> ''image/jpeg''],
     body_chunks = [''ab'', ''cd''], breaks_after = None\<rparr>"

definition not_found_response :: response where
  "not_found_response = \<lparr>status_code = 404, headers = [''Content-Type'' \<mapsto> ''text/html''],
     body_chunks = [], breaks_after = None\<rparr>"

definition html_response :: response where
  "html_response = \<lparr>status_code = 200, headers = [''Content-Type'' \<mapsto> ''text/html''],
     body_chunks = [], breaks_after = None\<rparr>"

definition serve_only :: "string list \<Rightarrow> transport" where
  "serve_only served url = (if url \<in> set served then Response image_response else Response not_found_response)"


definition html_page :: transport where
  "html_page url = Response html_response"

definition serve_all :: transport where
  "serve_all url = Response image_response"

definition timing_out :: transport where
  "timing_out url = Raised Timeout"

definition accented_url :: string where
  "accented_url = ''http://h/caf'' @ [CHR 0xE9] @ ''1/index.html/'' @ [CHR 0xE9] @ ''t'' @ [CHR 0xE9] @ ''/index.html''"

definition healthy_disk :: "string \<Rightarrow> fs_fault" where
  "healthy_disk file_path = NoFault"

definition faulty_disk :: "string \<Rightarrow> fs_fault \<Rightarrow> string \<Rightarrow> fs_fault" where
  "faulty_disk bad fault file_path = (if file_path = bad then fault else NoFault)"

section \<open>Facts about the string functions\<close>

lemma not_word_slash: "\<not> is_word CHR ''/''"
  by (simp add: is_word_def re_w_def re_d_def)

lemma startswith_append: "startswith p (p @ s)"
  by (simp add: startswith_def)

lemma startswith_decomp: "startswith p s \<Longrightarrow> \<exists>post. s = p @ post"
  unfolding startswith_def by (metis append_take_drop_id)

lemma contains_iff: "contains sub s \<longleftrightarrow> (\<exists>pre post. s = pre @ sub @ post)"
proof (induction s)
  case Nil
  then show ?case by auto
next
  case (Cons c cs)
  show ?case
  proof
    assume "contains sub (c # cs)"
    then consider "startswith sub (c # cs)" | "contains sub cs" by auto
    then show "\<exists>pre post. c # cs = pre @ sub @ post"
    proof cases
      case 1
      then obtain post where "c # cs = sub @ post" using startswith_decomp by blast
      then have "c # cs = [] @ sub @ post" by simp
      then show ?thesis by blast
    next
      case 2
      then obtain pre post where "cs = pre @ sub @ post" using Cons.IH by blast
      then have "c # cs = (c # pre) @ sub @ post" by simp
      then show ?thesis by blast
    qed
  next
    assume "\<exists>pre post. c # cs = pre @ sub @ post"
    then obtain pre post where e: "c # cs = pre @ sub @ post" by blast
    show "contains sub (c # cs)"
    proof (cases pre)
      case Nil
      then have "startswith sub (c # cs)" using e by (simp add: startswith_append)
      then show ?thesis by simp
    next
      case (Cons a pre')
      then have "cs = pre' @ sub @ post" using e by simp
      then have "contains sub cs" using Cons.IH by blast
      then show ?thesis by simp
    qed
  qed
qed

lemma find_Some_mem: "find P xs = Some x \<Longrightarrow> P x \<and> x \<in> set xs"
  by (induction xs) (auto split: if_splits)

lemma match_token_sound:
  assumes "match_token cs = Some tok"
  shows "tok \<noteq> [] \<and> list_all is_word tok \<and> (\<exists>post. cs = tok @ ''/index.html'' @ post)"
proof -
  let ?k = "length (takeWhile is_word cs)"
  from assms obtain n where
    f: "find (\<lambda>n. startswith ''/index.html'' (drop n cs)) (rev [1 ..< Suc ?k]) = Some n"
    and t: "tok = take n cs"
    by (auto simp: match_token_def)
  from f have sw: "startswith ''/index.html'' (drop n cs)" and mem: "n \<in> set (rev [1 ..< Suc ?k])"
    using find_Some_mem by fastforce+
  from mem have n1: "1 \<le> n" and nk: "n \<le> ?k" by auto
  have "?k \<le> length cs" by (simp add: length_takeWhile_le)
  with n1 nk t have ne: "tok \<noteq> []" by auto
  have "take n cs = take n (takeWhile is_word cs)"
    using nk by (metis append_eq_conv_conj takeWhile_dropWhile_id take_all take_append  diff_is_0_eq' take_0 append_Nil2 min.absorb2 take_take)
  then have "set tok \<subseteq> set (takeWhile is_word cs)" using t by (metis set_take_subset)
  then have w: "list_all is_word tok" by (auto simp: list_all_iff dest: set_takeWhileD)
  from sw obtain post where "drop n cs = ''/index.html'' @ post" using startswith_decomp by blast
  then have "cs = tok @ ''/index.html'' @ post" using t by (metis append_take_drop_id)
  with ne w show ?thesis by blast
qed

lemma match_token_complete:
  assumes "tok \<noteq> []" "list_all is_word tok"
  shows "match_token (tok @ ''/index.html'' @ post) = Some tok"
proof -
  let ?cs = "tok @ ''/index.html'' @ post"
  have tw: "takeWhile is_word ?cs = tok"
    using assms(2) not_word_slash by (simp add: takeWhile_append list_all_iff)
  obtain k where k: "length tok = Suc k" using assms(1) by (cases tok) auto
  have r: "rev [1 ..< Suc (length tok)] = length tok # rev [1 ..< length tok]"
    using k by simp
  have "startswith ''/index.html'' (drop (length tok) ?cs)"
    using startswith_append[of "''/index.html''" post] by simp
  then show ?thesis
    unfolding match_token_def tw r by simp
qed

lemma match_at_iff:
  "match_at s = Some tok \<longleftrightarrow>
     (\<exists>post. s = ''/'' @ tok @ ''/index.html'' @ post \<and> tok \<noteq> [] \<and> list_all is_word tok)"
proof
  assume m: "match_at s = Some tok"
  then obtain cs where s: "s = CHR ''/'' # cs" and t: "match_token cs = Some tok"
    by (cases s) (auto simp: match_at_def split: if_splits)
  from match_token_sound[OF t] s
  show "\<exists>post. s = ''/'' @ tok @ ''/index.html'' @ post \<and> tok \<noteq> [] \<and> list_all is_word tok"
    by auto
next
  assume "\<exists>post. s = ''/'' @ tok @ ''/index.html'' @ post \<and> tok \<noteq> [] \<and> list_all is_word tok"
  then obtain post where s: "s = CHR ''/'' # tok @ ''/index.html'' @ post"
    and ne: "tok \<noteq> []" and w: "list_all is_word tok" by auto
  show "match_at s = Some tok"
    unfolding s using match_token_complete[OF ne w] by (simp add: match_at_def)
qed

lemma pattern_at_match:
  assumes "pattern_at url pre tok post"
  shows "match_at (drop (length pre) url) = Some tok"
proof -
  from assms have "drop (length pre) url = ''/'' @ tok @ ''/index.html'' @ post"
    and "tok \<noteq> []" and "list_all is_word tok"
    by (simp_all add: pattern_at_def)
  then show ?thesis using match_at_iff by blast
qed

lemma match_pattern_at:
  assumes "match_at (drop n url) = Some tok"
  shows "\<exists>post. pattern_at url (take n url) tok post \<and> length (take n url) = n"
proof -
  from assms obtain post where d: "drop n url = ''/'' @ tok @ ''/index.html'' @ post"
    and ne: "tok \<noteq> []" and w: "list_all is_word tok"
    using match_at_iff by blast
  from d have "drop n url \<noteq> []" by simp
  then have n: "n < length url" by simp
  have "url = take n url @ drop n url" by simp
  then have "url = take n url @ ''/'' @ tok @ ''/index.html'' @ post" using d by metis
  then have "pattern_at url (take n url) tok post" using ne w by (simp add: pattern_at_def)
  moreover have "length (take n url) = n" using n by simp
  ultimately show ?thesis by blast
qed

lemma re_search_leftmost:
  "re_search url = Some tok \<longleftrightarrow>
     (\<exists>n. match_at (drop n url) = Some tok \<and> (\<forall>j<n. match_at (drop j url) = None))"
proof (induction url)
  case Nil
  then show ?case by (simp add: match_at_def)
next
  case (Cons c cs)
  show ?case
  proof (cases "match_at (c # cs)")
    case (Some t)
    have "(\<exists>n. match_at (drop n (c # cs)) = Some tok \<and> (\<forall>j<n. match_at (drop j (c # cs)) = None))
        \<longleftrightarrow> t = tok"
    proof
      assume "\<exists>n. match_at (drop n (c # cs)) = Some tok \<and> (\<forall>j<n. match_at (drop j (c # cs)) = None)"
      then obtain n where a: "match_at (drop n (c # cs)) = Some tok"
        and b: "\<forall>j<n. match_at (drop j (c # cs)) = None" by blast
      have "n = 0"
      proof (rule ccontr)
        assume "n \<noteq> 0"
        then have "match_at (drop 0 (c # cs)) = None" using b by blast
        with Some show False by simp
      qed
      with a Some show "t = tok" by simp
    next
      assume "t = tok"
      with Some have "match_at (drop 0 (c # cs)) = Some tok \<and> (\<forall>j<0. match_at (drop j (c # cs)) = None)"
        by simp
      then show "\<exists>n. match_at (drop n (c # cs)) = Some tok \<and> (\<forall>j<n. match_at (drop j (c # cs)) = None)"
        by blast
    qed
    with Some show ?thesis by simp
  next
    case None
    have "(\<exists>n. match_at (drop n (c # cs)) = Some tok \<and> (\<forall>j<n. match_at (drop j (c # cs)) = None))
        \<longleftrightarrow> (\<exists>m. match_at (drop m cs) = Some tok \<and> (\<forall>j<m. match_at (drop j cs) = None))"
    proof
      assume "\<exists>n. match_at (drop n (c # cs)) = Some tok \<and> (\<forall>j<n. match_at (drop j (c # cs)) = None)"
      then obtain n where a: "match_at (drop n (c # cs)) = Some tok"
        and b: "\<forall>j<n. match_at (drop j (c # cs)) = None" by blast
      from a None obtain m where n: "n = Suc m" by (cases n) auto
      from a n have a': "match_at (drop m cs) = Some tok" by simp
      have "\<forall>j<m. match_at (drop j cs) = None"
      proof (intro allI impI)
        fix j assume "j < m"
        then have "Suc j < n" using n by simp
        with b have "match_at (drop (Suc j) (c # cs)) = None" by blast
        then show "match_at (drop j cs) = None" by simp
      qed
      with a' show "\<exists>m. match_at (drop m cs) = Some tok \<and> (\<forall>j<m. match_at (drop j cs) = None)"
        by blast
    next
      assume "\<exists>m. match_at (drop m cs) = Some tok \<and> (\<forall>j<m. match_at (drop j cs) = None)"
      then obtain m where a: "match_at (drop m cs) = Some tok"
        and b: "\<forall>j<m. match_at (drop j cs) = None" by blast
      have a': "match_at (drop (Suc m) (c # cs)) = Some tok" using a by simp
      have "\<forall>j<Suc m. match_at (drop j (c # cs)) = None"
      proof (intro allI impI)
        fix j assume j: "j < Suc m"
        show "match_at (drop j (c # cs)) = None"
        proof (cases j)
          case 0
          with None show ?thesis by simp
        next
          case (Suc k)
          with j b show ?thesis by simp
        qed
      qed
      with a' show "\<exists>n. match_at (drop n (c # cs)) = Some tok \<and> (\<forall>j<n. match_at (drop j (c # cs)) = None)"
        by blast
    qed
    with None Cons.IH show ?thesis by simp
  qed
qed

text \<open>
  The search returns the token of the leftmost occurrence of the pattern, and finds one
  whenever the pattern occurs.
\<close>

lemma re_search_sound:
  assumes "re_search url = Some tok"
  shows "\<exists>pre post. pattern_at url pre tok post \<and>
           (\<forall>pre' tok' post'. pattern_at url pre' tok' post' \<longrightarrow> length pre \<le> length pre')"
proof -
  from assms obtain n where m: "match_at (drop n url) = Some tok"
    and first: "\<forall>j<n. match_at (drop j url) = None"
    using re_search_leftmost by blast
  from match_pattern_at[OF m] obtain post where p: "pattern_at url (take n url) tok post"
    and l: "length (take n url) = n" by blast
  have "\<forall>pre' tok' post'. pattern_at url pre' tok' post' \<longrightarrow> length (take n url) \<le> length pre'"
  proof (intro allI impI)
    fix pre' tok' post'
    assume "pattern_at url pre' tok' post'"
    then have "match_at (drop (length pre') url) = Some tok'" by (rule pattern_at_match)
    then have "\<not> length pre' < n" using first by auto
    then show "length (take n url) \<le> length pre'" using l by simp
  qed
  with p show ?thesis by blast
qed

lemma re_search_leftmost_pattern:
  assumes p: "pattern_at url pre tok post"
    and first: "\<forall>pre' tok' post'. pattern_at url pre' tok' post' \<longrightarrow> length pre \<le> length pre'"
  shows "re_search url = Some tok"
proof -
  have m: "match_at (drop (length pre) url) = Some tok" using p by (rule pattern_at_match)
  have "\<forall>j<length pre. match_at (drop j url) = None"
  proof (intro allI impI)
    fix j assume j: "j < length pre"
    show "match_at (drop j url) = None"
    proof (rule ccontr)
      assume "match_at (drop j url) \<noteq> None"
      then obtain t where "match_at (drop j url) = Some t" by blast
      from match_pattern_at[OF this] obtain post' where
        "pattern_at url (take j url) t post'" and "length (take j url) = j" by blast
      with first have "length pre \<le> j" by metis
      with j show False by simp
    qed
  qed
  with m show ?thesis using re_search_leftmost by blast
qed

lemma re_search_complete:
  assumes "contains_pattern url tok"
  shows "\<exists>t. re_search url = Some t"
proof -
  from assms obtain pre post where "pattern_at url pre tok post"
    unfolding contains_pattern_def by blast
  then have m: "match_at (drop (length pre) url) = Some tok" by (rule pattern_at_match)
  let ?P = "\<lambda>n. match_at (drop n url) \<noteq> None"
  from m have "?P (length pre)" by simp
  then have l: "?P (LEAST n. ?P n)" by (rule LeastI)
  then obtain t where t: "match_at (drop (LEAST n. ?P n) url) = Some t" by blast
  have "\<forall>j<(LEAST n. ?P n). match_at (drop j url) = None"
    using not_less_Least by blast
  with t show ?thesis using re_search_leftmost by blast
qed

lemma rsplit_head_index: "rsplit_head (p @ ''/index.html'') = p"
  by (simp add: rsplit_head_def)

lemma length_generate: "length (generate_image_urls b s n) = nat n"
  by (simp add: generate_image_urls_def)

lemma nth_generate: "k < nat n \<Longrightarrow> generate_image_urls b s n ! k = image_url b s (int k + 1)"
  by (simp add: generate_image_urls_def add.commute)

lemma generate_nonpos: "n \<le> 0 \<Longrightarrow> generate_image_urls b s n = []"
  by (simp add: generate_image_urls_def)

lemma rsplit_head_cut:
  assumes "CHR ''/'' \<in> set s"
  shows "s = rsplit_head s @ ''/'' @ basename s \<and> CHR ''/'' \<notin> set (basename s)"
proof -
  let ?P = "\<lambda>c. c \<noteq> CHR ''/''"
  let ?T = "takeWhile ?P (rev s)" and ?D = "dropWhile ?P (rev s)"
  have "CHR ''/'' \<in> set (rev s)" using assms by simp
  then have ne: "?D \<noteq> []" by (simp add: dropWhile_eq_Nil_conv)
  then have "\<not> ?P (hd ?D)" by (rule hd_dropWhile)
  then have "hd ?D = CHR ''/''" by simp
  with ne have d: "?D = CHR ''/'' # tl ?D" by (metis list.collapse)
  have "rev s = ?T @ ?D" by simp
  then have "rev s = ?T @ CHR ''/'' # tl ?D" using d by metis
  then have "rev (rev s) = rev (?T @ CHR ''/'' # tl ?D)" by (rule arg_cong)
  then have s: "s = rev (tl ?D) @ ''/'' @ rev ?T" by simp
  have "CHR ''/'' \<notin> set ?T" using set_takeWhileD by fastforce
  then have n: "CHR ''/'' \<notin> set (basename s)" by (simp add: basename_def)
  have rh: "rsplit_head s = rev (tl ?D)" using assms by (simp add: rsplit_head_def)
  have bn: "basename s = rev ?T" by (simp add: basename_def)
  have "s = rsplit_head s @ ''/'' @ basename s" unfolding rh bn by (rule s)
  then show ?thesis using n by (rule conjI)
qed

lemma pattern_has_slash: "pattern_at url pre tok post \<Longrightarrow> CHR ''/'' \<in> set url"
  by (simp add: pattern_at_def)

lemma after_scheme_suffix: "\<exists>a. s = a @ after_scheme s"
proof (induction s)
  case Nil
  then show ?case by simp
next
  case (Cons c cs)
  show ?case
  proof (cases "startswith ''://'' (c # cs)")
    case True
    have a: "after_scheme (c # cs) = drop 3 (c # cs)" using True by simp
    have "c # cs = take 3 (c # cs) @ after_scheme (c # cs)"
      unfolding a by (simp only: append_take_drop_id)
    then show ?thesis by (rule exI)
  next
    case False
    from Cons obtain a where "cs = a @ after_scheme cs" by blast
    moreover have "after_scheme (c # cs) = after_scheme cs" using False by simp
    ultimately have "c # cs = (c # a) @ after_scheme (c # cs)" by simp
    then show ?thesis by (rule exI)
  qed
qed

lemma url_path_infix: "\<exists>a b. url = a @ url_path url @ b"
proof -
  let ?rest = "if contains ''://'' url then after_scheme url else url"
  let ?P = "\<lambda>c. c \<noteq> CHR ''/''"
  let ?Q = "\<lambda>c. c \<noteq> CHR ''?'' \<and> c \<noteq> CHR ''#''"
  obtain a0 where a0: "url = a0 @ ?rest"
    using after_scheme_suffix[of url] by (cases "contains ''://'' url") auto
  have p: "url_path url = takeWhile ?Q (dropWhile ?P ?rest)" by (simp add: url_path_def)
  have "url = a0 @ ?rest" by (rule a0)
  also have "\<dots> = a0 @ takeWhile ?P ?rest @ dropWhile ?P ?rest" by simp
  also have "\<dots> = a0 @ takeWhile ?P ?rest @ url_path url @ dropWhile ?Q (dropWhile ?P ?rest)"
    unfolding p by simp
  finally have "url = (a0 @ takeWhile ?P ?rest) @ url_path url @ dropWhile ?Q (dropWhile ?P ?rest)"
    by simp
  then show ?thesis by blast
qed

lemma url_path_start: "url_path url = [] \<or> hd (url_path url) = CHR ''/''"
proof -
  let ?rest = "if contains ''://'' url then after_scheme url else url"
  let ?P = "\<lambda>c. c \<noteq> CHR ''/''"
  let ?Q = "\<lambda>c. c \<noteq> CHR ''?'' \<and> c \<noteq> CHR ''#''"
  have p: "url_path url = takeWhile ?Q (dropWhile ?P ?rest)" by (simp add: url_path_def)
  define D where "D = dropWhile ?P ?rest"
  have p': "url_path url = takeWhile ?Q D" unfolding p D_def ..
  show ?thesis
  proof (cases D)
    case Nil
    then show ?thesis unfolding p' by simp
  next
    case (Cons x xs)
    then have "dropWhile ?P ?rest \<noteq> []" unfolding D_def by simp
    then have "\<not> ?P (hd (dropWhile ?P ?rest))" by (rule hd_dropWhile)
    with Cons have "x = CHR ''/''" unfolding D_def by simp
    with Cons show ?thesis unfolding p' by simp
  qed
qed

lemma split_on_nonempty: "split_on d s \<noteq> []"
  by (induction s) (auto split: list.splits)

lemma split_on_other:
  "c \<noteq> d \<Longrightarrow> split_on d (c # cs) = (c # hd (split_on d cs)) # tl (split_on d cs)"
  using split_on_nonempty[of d cs] by (cases "split_on d cs") simp_all

lemma split_on_first: "\<exists>post. s = hd (split_on d s) @ post"
proof (induction s)
  case Nil
  then show ?case by simp
next
  case (Cons c cs)
  then obtain post where "cs = hd (split_on d cs) @ post" by blast
  then have e: "c # cs = (c # hd (split_on d cs)) @ post" by simp
  show ?case
  proof (cases "c = d")
    case True
    then show ?thesis by simp
  next
    case False
    then have "split_on d (c # cs) = (c # hd (split_on d cs)) # tl (split_on d cs)"
      by (rule split_on_other)
    then have "hd (split_on d (c # cs)) = c # hd (split_on d cs)" by (simp only: list.sel)
    with e show ?thesis by metis
  qed
qed

lemma split_on_nth:
  "Suc i < length (split_on d s) \<Longrightarrow>
     \<exists>pre post. s = pre @ split_on d s ! i @ d # split_on d s ! Suc i @ post \<and>
       (i = 0 \<longrightarrow> pre = []) \<and> (0 < i \<longrightarrow> pre \<noteq> [] \<and> last pre = d)"
proof (induction s arbitrary: i)
  case Nil
  then show ?case by simp
next
  case (Cons c cs)
  let ?R = "split_on d cs"
  have Rne: "?R \<noteq> []" by (rule split_on_nonempty)
  show ?case
  proof (cases "c = d")
    case True
    then have S: "split_on d (c # cs) = [] # ?R" by simp
    show ?thesis
    proof (cases i)
      case 0
      from split_on_first[of cs d] obtain post where "cs = hd ?R @ post" by blast
      then have "c # cs = [] @ [] @ d # ?R ! 0 @ post" using True Rne by (simp add: hd_conv_nth)
      then show ?thesis unfolding S 0 by auto
    next
      case (Suc k)
      with Cons.prems S have "Suc k < length ?R" by simp
      from Cons.IH[OF this] obtain pre post where
        e: "cs = pre @ ?R ! k @ d # ?R ! Suc k @ post"
        and z: "k = 0 \<longrightarrow> pre = []" and p: "0 < k \<longrightarrow> pre \<noteq> [] \<and> last pre = d" by blast
      have "c # cs = (d # pre) @ ?R ! k @ d # ?R ! Suc k @ post" using e True by simp
      moreover have "d # pre \<noteq> [] \<and> last (d # pre) = d" using z p by (cases k) auto
      ultimately show ?thesis unfolding S Suc by (intro exI[of _ "d # pre"] exI[of _ post]) simp
    qed
  next
    case False
    then have S: "split_on d (c # cs) = (c # hd ?R) # tl ?R" by (rule split_on_other)
    have len: "length (split_on d (c # cs)) = length ?R" unfolding S using Rne by (cases ?R) auto
    with Cons.prems have i: "Suc i < length ?R" by simp
    from Cons.IH[OF i] obtain pre post where
      e: "cs = pre @ ?R ! i @ d # ?R ! Suc i @ post"
      and z: "i = 0 \<longrightarrow> pre = []" and p: "0 < i \<longrightarrow> pre \<noteq> [] \<and> last pre = d" by blast
    have next_eq: "split_on d (c # cs) ! Suc i = ?R ! Suc i"
      unfolding S using i by (simp add: nth_tl)
    show ?thesis
    proof (cases i)
      case 0
      with z have "pre = []" by simp
      with e 0 have "c # cs = [] @ (c # hd ?R) @ d # ?R ! Suc 0 @ post"
        using Rne by (simp add: hd_conv_nth)
      moreover have "split_on d (c # cs) ! 0 = c # hd ?R" unfolding S by simp
      ultimately show ?thesis using next_eq unfolding 0 by (intro exI[of _ "[]"] exI[of _ post]) simp
    next
      case (Suc k)
      have cur: "split_on d (c # cs) ! i = ?R ! i" unfolding S Suc using i Suc by (simp add: nth_tl)
      from p Suc have pp: "pre \<noteq> []" "last pre = d" by simp_all
      have "c # cs = (c # pre) @ ?R ! i @ d # ?R ! Suc i @ post" using e by simp
      moreover have "c # pre \<noteq> [] \<and> last (c # pre) = d" using pp by simp
      ultimately show ?thesis unfolding cur next_eq using Suc
        by (intro exI[of _ "c # pre"] exI[of _ post]) simp
    qed
  qed
qed

text \<open>A URL with such a path segment holds the pattern.\<close>

lemma index_segment_pattern:
  assumes "has_index_segment url"
  shows "\<exists>tok. contains_pattern url tok"
proof -
  let ?R = "split_on CHR ''/'' (url_path url)"
  from assms obtain t where "t \<in> set (index_segments url)"
    unfolding has_index_segment_def by (cases "index_segments url") auto
  then have z: "(t, ''index.html'') \<in> set (zip ?R (tl ?R))" and ne: "t \<noteq> []" and w: "list_all is_word t"
    unfolding index_segments_def Let_def by auto
  from z obtain i where i: "i < length ?R" "i < length (tl ?R)" and ti: "?R ! i = t"
    and ni: "tl ?R ! i = ''index.html''"
    unfolding in_set_zip by auto
  from i have si: "Suc i < length ?R" by simp
  from ni i have ni': "?R ! Suc i = ''index.html''" by (simp add: nth_tl)
  from split_on_nth[OF si] obtain pre post where
    e: "url_path url = pre @ t @ CHR ''/'' # ''index.html'' @ post"
    and z0: "i = 0 \<longrightarrow> pre = []" and p: "0 < i \<longrightarrow> pre \<noteq> [] \<and> last pre = CHR ''/''"
    unfolding ti ni' by blast
  have "0 < i"
  proof (rule ccontr)
    assume "\<not> 0 < i"
    then have "pre = []" using z0 by simp
    with e ne have "url_path url \<noteq> []" and "hd (url_path url) = hd t" by auto
    with url_path_start[of url] have "hd t = CHR ''/''" by auto
    moreover have "is_word (hd t)" using ne w by (cases t) auto
    ultimately show False using not_word_slash by simp
  qed
  with p have "pre \<noteq> []" "last pre = CHR ''/''" by simp_all
  then have pre: "pre = butlast pre @ ''/''" by (metis append_butlast_last_id)
  from url_path_infix obtain a b where u: "url = a @ url_path url @ b" by blast
  have "url_path url = butlast pre @ ''/'' @ t @ ''/index.html'' @ post"
    using e pre by (metis append.assoc append_Cons append_Nil)
  then have "url = (a @ butlast pre) @ ''/'' @ t @ ''/index.html'' @ (post @ b)"
    using u by simp
  then have "pattern_at url (a @ butlast pre) t (post @ b)"
    using ne w unfolding pattern_at_def by blast
  then show ?thesis unfolding contains_pattern_def by blast
qed

section \<open>Pattern extraction\<close>

text \<open>
  C5, as amended. For every URL that has a path segment \<^verbatim>\<open>/<token>/index.html\<close>, and for
  every other URL in which the pattern occurs, \<^verbatim>\<open>extract_base_url_and_name\<close> succeeds. With
  \<open>tok\<close> the token of the leftmost occurrence of the pattern, the name it returns is
  \<open>tok\<close> without its non-alphabetic characters, the alphabetic ones in their order, and the
  base URL is the URL cut at its last slash. When the URL ends with \<^verbatim>\<open>/index.html\<close> the base
  URL is the URL without that ending. The candidate with index \<open>i\<close> generated from the pair
  is the base URL followed by \<^verbatim>\<open>/images/\<close>, the name, the decimal index and \<^verbatim>\<open>.jpg\<close>.
\<close>

theorem extract_base_url_and_name_on_match:
  assumes "has_index_segment url \<or> contains_pattern url tok0"
  shows "\<exists>pre tok post.
           pattern_at url pre tok post \<and>
           (\<forall>pre' tok' post'. pattern_at url pre' tok' post' \<longrightarrow> length pre \<le> length pre') \<and>
           extract_base_url_and_name url = Inr (rsplit_head url, filter isalpha tok) \<and>
           (\<exists>last. url = rsplit_head url @ ''/'' @ last \<and> CHR ''/'' \<notin> set last) \<and>
           (\<forall>p. url = p @ ''/index.html'' \<longrightarrow> rsplit_head url = p) \<and>
           (\<forall>i n. 1 \<le> i \<and> i \<le> n \<longrightarrow>
              generate_image_urls (rsplit_head url) (filter isalpha tok) n ! nat (i - 1) =
                rsplit_head url @ ''/images/'' @ filter isalpha tok @ str_int i @ ''.jpg'')"
proof -
  from assms obtain t0 where "contains_pattern url t0" using index_segment_pattern by blast
  from re_search_complete[OF this] obtain tok where s: "re_search url = Some tok" by blast
  from re_search_sound[OF s] obtain pre post where p: "pattern_at url pre tok post"
    and first: "\<forall>pre' tok' post'. pattern_at url pre' tok' post' \<longrightarrow> length pre \<le> length pre'"
    by blast
  have ex: "extract_base_url_and_name url = Inr (rsplit_head url, filter isalpha tok)"
    using s by (simp add: extract_base_url_and_name_def)
  have "CHR ''/'' \<in> set url" using p by (rule pattern_has_slash)
  then have "url = rsplit_head url @ ''/'' @ basename url \<and> CHR ''/'' \<notin> set (basename url)"
    by (rule rsplit_head_cut)
  then have cut: "\<exists>last. url = rsplit_head url @ ''/'' @ last \<and> CHR ''/'' \<notin> set last" by blast
  have base: "\<forall>p. url = p @ ''/index.html'' \<longrightarrow> rsplit_head url = p"
    using rsplit_head_index by blast
  have cand: "\<forall>i n. 1 \<le> i \<and> i \<le> n \<longrightarrow>
      generate_image_urls (rsplit_head url) (filter isalpha tok) n ! nat (i - 1) =
        rsplit_head url @ ''/images/'' @ filter isalpha tok @ str_int i @ ''.jpg''"
  proof (intro allI impI)
    fix i n :: int
    assume b: "1 \<le> i \<and> i \<le> n"
    then have "nat (i - 1) < nat n" by linarith
    then have "generate_image_urls (rsplit_head url) (filter isalpha tok) n ! nat (i - 1) =
        image_url (rsplit_head url) (filter isalpha tok) (int (nat (i - 1)) + 1)"
      by (rule nth_generate)
    also have "int (nat (i - 1)) + 1 = i" using b by simp
    finally show "generate_image_urls (rsplit_head url) (filter isalpha tok) n ! nat (i - 1) =
        rsplit_head url @ ''/images/'' @ filter isalpha tok @ str_int i @ ''.jpg''"
      by (simp add: image_url_def)
  qed
  from p first ex cut base cand show ?thesis by blast
qed

theorem extract_base_url_and_name_on_match_witness:
  "has_index_segment ''https://site.example/gallery42/index.html'' \<and>
   extract_base_url_and_name ''https://site.example/gallery42/index.html'' =
     Inr (''https://site.example/gallery42'', ''gallery'') \<and>
   generate_image_urls ''https://site.example/gallery42'' ''gallery'' 3 ! 1 =
     ''https://site.example/gallery42/images/gallery2.jpg'' \<and>
   has_index_segment accented_url \<and>
   extract_base_url_and_name accented_url =
     Inr (''http://h/caf'' @ [CHR 0xE9] @ ''1/index.html/'' @ [CHR 0xE9] @ ''t'' @ [CHR 0xE9],
          ''caf'' @ [CHR 0xE9])"
proof -
  define u where "u = ''https://site.example/gallery42/index.html''"
  define b where "b = ''https://site.example/gallery42''"
  define g where "g = ''gallery''"
  have seg: "has_index_segment u" unfolding u_def by code_simp
  have val: "extract_base_url_and_name u = Inr (b, g)" unfolding u_def b_def g_def by code_simp
  from extract_base_url_and_name_on_match[of u "[]"] seg obtain tok where
    e: "extract_base_url_and_name u = Inr (rsplit_head u, filter isalpha tok)"
    and c: "\<forall>i n. 1 \<le> i \<and> i \<le> n \<longrightarrow>
              generate_image_urls (rsplit_head u) (filter isalpha tok) n ! nat (i - 1) =
                rsplit_head u @ ''/images/'' @ filter isalpha tok @ str_int i @ ''.jpg''"
    by blast
  from e val have base: "rsplit_head u = b" and stem: "filter isalpha tok = g" by simp_all
  have two: "str_int 2 = ''2''" by code_simp
  have "(1::int) \<le> 2 \<and> (2::int) \<le> 3" by simp
  then have "generate_image_urls (rsplit_head u) (filter isalpha tok) 3 ! nat (2 - 1) =
      rsplit_head u @ ''/images/'' @ filter isalpha tok @ str_int 2 @ ''.jpg''"
    using c[rule_format, of 2 3] by simp
  then have gen: "generate_image_urls b g 3 ! 1 = b @ ''/images/'' @ g @ ''2'' @ ''.jpg''"
    unfolding base stem two by simp
  have seg2: "has_index_segment accented_url" by code_simp
  have val2: "extract_base_url_and_name accented_url =
     Inr (''http://h/caf'' @ [CHR 0xE9] @ ''1/index.html/'' @ [CHR 0xE9] @ ''t'' @ [CHR 0xE9],
          ''caf'' @ [CHR 0xE9])"
    by code_simp
  show ?thesis
  proof (intro conjI)
    show "has_index_segment ''https://site.example/gallery42/index.html''"
      using seg unfolding u_def .
    show "extract_base_url_and_name ''https://site.example/gallery42/index.html'' =
        Inr (''https://site.example/gallery42'', ''gallery'')"
      using val unfolding u_def b_def g_def .
    show "generate_image_urls ''https://site.example/gallery42'' ''gallery'' 3 ! 1 =
        ''https://site.example/gallery42/images/gallery2.jpg''"
      using gen unfolding b_def g_def by simp
    show "has_index_segment accented_url" by (rule seg2)
    show "extract_base_url_and_name accented_url =
        Inr (''http://h/caf'' @ [CHR 0xE9] @ ''1/index.html/'' @ [CHR 0xE9] @ ''t'' @ [CHR 0xE9],
             ''caf'' @ [CHR 0xE9])"
      by (rule val2)
  qed
qed

text \<open>
  The search does not ask for \<^verbatim>\<open>/index.html\<close> to end the URL, while the base URL is cut at
  the last slash: on a URL that goes on after \<^verbatim>\<open>/index.html\<close> with another slash the base
  URL still ends with \<^verbatim>\<open>/index.html\<close>.
\<close>

theorem extract_base_url_and_name_counterexample:
  "has_index_segment ''https://site.example/gallery42/index.html/x'' \<and>
   re_search ''https://site.example/gallery42/index.html/x'' = Some ''gallery42'' \<and>
   extract_base_url_and_name ''https://site.example/gallery42/index.html/x'' =
     Inr (''https://site.example/gallery42/index.html'', ''gallery'') \<and>
   ''https://site.example/gallery42/index.html'' \<noteq> ''https://site.example/gallery42''"
  by code_simp

text \<open>
  C6, as amended. \<^verbatim>\<open>extract_base_url_and_name\<close> raises, and what it raises is the
  \<^verbatim>\<open>ValueError\<close> of the format, exactly when the pattern occurs nowhere in the URL: no
  slash is followed by a non-empty run of word characters and the literal \<^verbatim>\<open>/index.html\<close>.
  Such a URL has no path segment \<^verbatim>\<open>/<token>/index.html\<close>.
\<close>

theorem extract_base_url_and_name_format_error:
  "(extract_base_url_and_name url =
      Inl (ValueError ''Invalid URL format. Ensure the URL contains '/index.html'.'')) =
     (\<forall>tok. \<not> contains_pattern url tok) \<and>
   ((\<exists>e. extract_base_url_and_name url = Inl e) =
     (\<forall>tok. \<not> contains_pattern url tok)) \<and>
   ((\<forall>tok. \<not> contains_pattern url tok) \<longrightarrow> \<not> has_index_segment url)"
proof -
  have a: "(\<forall>tok. \<not> contains_pattern url tok) \<Longrightarrow> re_search url = None"
  proof (rule ccontr)
    assume n: "\<forall>tok. \<not> contains_pattern url tok" and "re_search url \<noteq> None"
    then obtain tok where "re_search url = Some tok" by blast
    from re_search_sound[OF this] have "contains_pattern url tok"
      unfolding contains_pattern_def by blast
    with n show False by blast
  qed
  have b: "re_search url = None \<Longrightarrow> \<forall>tok. \<not> contains_pattern url tok"
    using re_search_complete by fastforce
  have c: "(extract_base_url_and_name url =
      Inl (ValueError ''Invalid URL format. Ensure the URL contains '/index.html'.'')) =
      (re_search url = None)"
    by (cases "re_search url") (simp_all add: extract_base_url_and_name_def)
  have d: "(\<exists>e. extract_base_url_and_name url = Inl e) = (re_search url = None)"
    by (cases "re_search url") (simp_all add: extract_base_url_and_name_def)
  have e: "(\<forall>tok. \<not> contains_pattern url tok) \<longrightarrow> \<not> has_index_segment url"
    using index_segment_pattern by blast
  have f: "(re_search url = None) = (\<forall>tok. \<not> contains_pattern url tok)" using a b by blast
  show ?thesis unfolding c d f using e by simp
qed

theorem extract_base_url_and_name_format_error_witness:
  "(\<forall>tok. \<not> contains_pattern ''https://example.com/page.html'' tok) \<and>
   \<not> has_index_segment ''https://example.com/page.html'' \<and>
   extract_base_url_and_name ''https://example.com/page.html'' =
     Inl (ValueError ''Invalid URL format. Ensure the URL contains '/index.html'.'')"
proof -
  define u where "u = ''https://example.com/page.html''"
  define m where "m = ''Invalid URL format. Ensure the URL contains '/index.html'.''"
  have v: "extract_base_url_and_name u = Inl (ValueError m)" unfolding u_def m_def by code_simp
  from extract_base_url_and_name_format_error[of u] v
  have h: "\<forall>tok. \<not> contains_pattern u tok" unfolding m_def by simp
  with extract_base_url_and_name_format_error[of u]
  have s: "\<not> has_index_segment u" by simp
  from h s v show ?thesis unfolding u_def m_def by simp
qed

text \<open>
  The converse fails: the pattern is searched in the text, not in the path segments. A URL
  whose last segment is \<^verbatim>\<open>index.htmlx\<close>, and a URL whose token is the host, have no path
  segment \<^verbatim>\<open>/<token>/index.html\<close>, and the extraction succeeds on both.
\<close>

theorem extract_base_url_and_name_format_error_counterexample:
  "\<not> has_index_segment ''https://site.example/gallery42/index.htmlx'' \<and>
   extract_base_url_and_name ''https://site.example/gallery42/index.htmlx'' =
     Inr (''https://site.example/gallery42'', ''gallery'') \<and>
   \<not> has_index_segment ''http://localhost/index.html'' \<and>
   extract_base_url_and_name ''http://localhost/index.html'' =
     Inr (''http://localhost'', ''localhost'')"
  by code_simp

section \<open>Bounded candidate generation\<close>

text \<open>
  C8. With a bound \<open>n\<close> of at least 1, \<^verbatim>\<open>generate_image_urls\<close> returns exactly \<open>n\<close>
  candidates, the one at position \<open>k\<close> (from 0) being the URL of index \<open>k + 1\<close>, so the
  indices are 1 to \<open>n\<close> in increasing order; with a bound of 0 or less it returns the empty
  list.
\<close>

theorem generate_image_urls_bounded:
  "(1 \<le> n \<longrightarrow>
      length (generate_image_urls base_url name n) = nat n \<and>
      (\<forall>k. k < nat n \<longrightarrow>
         generate_image_urls base_url name n ! k =
           base_url @ ''/images/'' @ name @ str_int (int k + 1) @ ''.jpg'')) \<and>
   (n \<le> 0 \<longrightarrow> generate_image_urls base_url name n = [])"
  using length_generate nth_generate generate_nonpos by (simp add: image_url_def)

theorem generate_image_urls_bounded_witness:
  "(1::int) \<le> 3 \<and> length (generate_image_urls ''b'' ''n'' 3) = 3 \<and>
   generate_image_urls ''b'' ''n'' 3 ! 2 = ''b/images/n3.jpg'' \<and>
   (- 2 :: int) \<le> 0 \<and> generate_image_urls ''b'' ''n'' (- 2) = []"
proof -
  have three: "str_int 3 = ''3''" by code_simp
  from generate_image_urls_bounded[of 3 "''b''" "''n''"]
  have l: "length (generate_image_urls ''b'' ''n'' 3) = 3"
    and k: "generate_image_urls ''b'' ''n'' 3 ! 2 = ''b'' @ ''/images/'' @ ''n'' @ str_int (int 2 + 1) @ ''.jpg''"
    by simp_all
  from generate_image_urls_bounded[of "- 2" "''b''" "''n''"]
  have e: "generate_image_urls ''b'' ''n'' (- 2) = []" by simp
  from l k e show ?thesis by (simp add: three)
qed

section \<open>The existence probers\<close>

lemma validate_loop_filter:
  "validate_loop head urls valid_urls = valid_urls @ filter (is_image_url head) urls"
  by (induction urls arbitrary: valid_urls) (auto simp: is_image_url_def split: http_result.splits)

lemma validate_image_urls_filter:
  "validate_image_urls head urls = filter (is_image_url head) urls"
  by (simp add: validate_image_urls_def validate_loop_filter)

text \<open>
  C4, as amended. \<^verbatim>\<open>is_image_url\<close> of version 1.2 classifies a URL as existing exactly
  when the probe returns a response with status 200 whose \<^verbatim>\<open>Content-Type\<close> holds the text
  \<^verbatim>\<open>image\<close>, and \<^verbatim>\<open>validate_image_urls\<close> of version 1.3 keeps exactly the URLs that pass the
  same test, in their order. \<^verbatim>\<open>validate_url\<close> of version 1.1 looks at the status only. In
  all three a request that raises (a transport error or a timeout) classifies the URL as
  not found, and nothing is raised.
\<close>

theorem probers_classification:
  "is_image_url head url =
     (\<exists>r. head url = Response r \<and> status_code r = 200 \<and>
          (\<exists>pre post. content_type r = pre @ ''image'' @ post)) \<and>
   validate_image_urls head urls = filter (is_image_url head) urls \<and>
   validate_url head url = (\<exists>r. head url = Response r \<and> status_code r = 200) \<and>
   (\<forall>e. head url = Raised e \<longrightarrow>
      \<not> is_image_url head url \<and> \<not> validate_url head url \<and> url \<notin> set (validate_image_urls head urls))"
proof -
  have a: "is_image_url head url =
     (\<exists>r. head url = Response r \<and> status_code r = 200 \<and>
          (\<exists>pre post. content_type r = pre @ ''image'' @ post))"
    by (cases "head url") (simp_all add: is_image_url_def contains_iff)
  have c: "validate_url head url = (\<exists>r. head url = Response r \<and> status_code r = 200)"
    by (cases "head url") (simp_all add: validate_url_def)
  have d: "\<forall>e. head url = Raised e \<longrightarrow>
      \<not> is_image_url head url \<and> \<not> validate_url head url \<and> url \<notin> set (validate_image_urls head urls)"
    by (simp add: validate_image_urls_filter is_image_url_def validate_url_def)
  from a c d validate_image_urls_filter show ?thesis by blast
qed


theorem probers_classification_witness:
  "timing_out ''http://h/g/images/g1.jpg'' = Raised Timeout \<and>
   \<not> is_image_url timing_out ''http://h/g/images/g1.jpg'' \<and>
   \<not> validate_url timing_out ''http://h/g/images/g1.jpg'' \<and>
   validate_image_urls timing_out [''http://h/g/images/g1.jpg''] = [] \<and>
   is_image_url (serve_only [''http://h/g/images/g1.jpg'']) ''http://h/g/images/g1.jpg''"
proof -
  let ?u = "''http://h/g/images/g1.jpg''"
  have t: "timing_out ?u = Raised Timeout" by (simp add: timing_out_def)
  from probers_classification[of timing_out ?u "[?u]"] t
  have n: "\<not> is_image_url timing_out ?u" and v: "\<not> validate_url timing_out ?u"
    and l: "validate_image_urls timing_out [?u] = filter (is_image_url timing_out) [?u]"
    by blast+
  have s: "serve_only [?u] ?u = Response image_response" by (simp add: serve_only_def)
  have ct: "content_type image_response = ''image/jpeg''"
    by (simp add: content_type_def image_response_def)
  have "content_type image_response = [] @ ''image'' @ ''/jpeg''" using ct by simp
  then have ex: "\<exists>pre post. content_type image_response = pre @ ''image'' @ post" by blast
  have "status_code image_response = 200" by (simp add: image_response_def)
  with s ex have i: "is_image_url (serve_only [?u]) ?u"
    using probers_classification[of "serve_only [?u]" ?u "[]"] by blast
  from t n v l i show ?thesis by simp
qed

text \<open>
  Version 1.1 accepts a page that is not an image: an HTML page served with status 200
  passes \<^verbatim>\<open>validate_url\<close>.
\<close>

theorem validate_url_counterexample:
  "html_page ''http://h/g/images/g1.jpg'' = Response html_response \<and>
   status_code html_response = 200 \<and>
   content_type html_response = ''text/html'' \<and>
   \<not> contains ''image'' ''text/html'' \<and>
   validate_url html_page ''http://h/g/images/g1.jpg''"
  by (simp add: html_page_def html_response_def validate_url_def content_type_def startswith_def)

section \<open>Counting the outcomes\<close>

lemma count_results_bools:
  "count_results (map Inr bs) s f = Inr (s + length (filter (\<lambda>b. b) bs), f + length (filter Not bs))"
proof (induction bs arbitrary: s f)
  case Nil
  then show ?case by simp
next
  case (Cons b bs)
  then show ?case by (cases b) simp_all
qed

lemma length_filter_mset: "mset xs = mset ys \<Longrightarrow> length (filter P xs) = length (filter P ys)"
  by (metis mset_filter size_mset)

text \<open>
  C9. The counting loop of \<^verbatim>\<open>download_images\<close> returns the same counters for any two
  orders of the same boolean outcomes: the number of successes and the number of failures.
\<close>

theorem count_results_order_independent:
  assumes "mset outcomes = mset outcomes'"
  shows "count_results (map Inr outcomes) 0 0 = count_results (map Inr outcomes') 0 0 \<and>
         count_results (map Inr outcomes) 0 0 =
           Inr (length (filter (\<lambda>b. b) outcomes), length (filter Not outcomes))"
  using length_filter_mset[OF assms] by (simp add: count_results_bools)

theorem count_results_order_independent_witness:
  "mset [True, False, True] = mset [False, True, True] \<and>
   count_results (map Inr [True, False, True]) 0 0 = Inr (2, 1) \<and>
   count_results (map Inr [False, True, True]) 0 0 = Inr (2, 1)"
proof -
  have h: "mset [True, False, True] = mset [False, True, True]" by simp
  from count_results_order_independent[OF h] h show ?thesis by simp
qed

section \<open>The download worker pool\<close>


lemma flushed_no_fault: "flushed NoFault written = (True, written)"
  by (simp add: flushed_def)

lemma download_image_result:
  assumes "disk (path_join folder (basename url)) = NoFault"
  shows "fst (download_image get disk url folder fs) = Inr (\<not> transport_fails get url)"
proof (cases "get url")
  case (Raised e)
  then show ?thesis by (simp add: download_image_def transport_fails_def)
next
  case (Response r)
  show ?thesis
  proof (cases "400 \<le> status_code r \<and> status_code r < 600")
    case True
    with Response show ?thesis by (simp add: download_image_def transport_fails_def)
  next
    case False
    with Response assms show ?thesis
      by (auto simp: download_image_def transport_fails_def Let_def flushed_no_fault)
  qed
qed

lemma map_nth_perm:
  assumes "mset completion = mset [0..<length bs]"
  shows "mset (map (\<lambda>i. bs ! i) completion) = mset bs"
proof -
  have "mset (map (\<lambda>i. bs ! i) completion) = image_mset (\<lambda>i. bs ! i) (mset completion)" by simp
  also have "\<dots> = image_mset (\<lambda>i. bs ! i) (mset [0..<length bs])" using assms by simp
  also have "\<dots> = mset (map (\<lambda>i. bs ! i) [0..<length bs])" by simp
  also have "\<dots> = mset bs" by (simp add: map_nth)
  finally show ?thesis .
qed

text \<open>
  With no fault of the disk at the destination paths, \<^verbatim>\<open>download_images\<close> returns, for
  every completion order, the number of URLs the transport does not fail and the number
  of URLs it fails; the two add up to the number of submitted URLs.
\<close>

lemma download_images_counts:
  assumes perm: "mset completion = mset [0..<length urls]"
    and ok: "\<forall>url \<in> set urls. disk (path_join folder (basename url)) = NoFault"
  shows "download_images get disk urls folder fs completion =
           Inr (length urls - length (filter (transport_fails get) urls),
                length (filter (transport_fails get) urls))"
proof -
  let ?bs = "map (\<lambda>url. \<not> transport_fails get url) urls"
  let ?futures = "map (\<lambda>url. fst (download_image get disk url folder fs)) urls"
  have fut: "?futures = map Inr ?bs"
    using ok by (simp add: download_image_result)
  have inr: "\<forall>i \<in> set completion. i < length urls"
    using perm by (metis atLeastLessThan_iff mset_eq_setD set_upt)
  then have m: "map (\<lambda>i. ?futures ! i) completion = map Inr (map (\<lambda>i. ?bs ! i) completion)"
    unfolding fut by simp
  have p: "mset (map (\<lambda>i. ?bs ! i) completion) = mset ?bs"
    using map_nth_perm[of completion ?bs] perm by simp
  have f: "length (filter Not ?bs) = length (filter (transport_fails get) urls)"
    by (simp add: filter_map comp_def)
  have t: "length (filter (\<lambda>b. b) ?bs) = length urls - length (filter (transport_fails get) urls)"
  proof -
    have "length (filter (\<lambda>b. b) ?bs) + length (filter Not ?bs) = length ?bs"
      using sum_length_filter_compl[of "\<lambda>b. b" ?bs] by (simp add: comp_def)
    then show ?thesis using f by simp
  qed
  have "download_images get disk urls folder fs completion =
      count_results (map Inr (map (\<lambda>i. ?bs ! i) completion)) 0 0"
    unfolding download_images_def Let_def m ..
  also have "\<dots> = Inr (length (filter (\<lambda>b. b) (map (\<lambda>i. ?bs ! i) completion)),
                        length (filter Not (map (\<lambda>i. ?bs ! i) completion)))"
    using count_results_bools[of "map (\<lambda>i. ?bs ! i) completion" 0 0] by simp
  also have "\<dots> = Inr (length (filter (\<lambda>b. b) ?bs), length (filter Not ?bs))"
    using length_filter_mset[OF p] by simp
  finally show ?thesis using f t by simp
qed

text \<open>
  C1 at a failing input. Two URLs are submitted and the transport serves both; the disk
  has room for one byte of the file of the second URL, so writing it raises \<^verbatim>\<open>OSError\<close>.
  \<^verbatim>\<open>download_image\<close> catches \<^verbatim>\<open>requests.RequestException\<close> only, so the error leaves the
  worker, \<^verbatim>\<open>future.result()\<close> raises it again and \<^verbatim>\<open>download_images\<close> returns no counts, in
  either completion order.
\<close>

theorem download_images_write_failure:
  "fst (download_image (serve_only [''http://h/g/images/g1.jpg'', ''http://h/g/images/g2.jpg''])
          (faulty_disk ''dl/g2.jpg'' (WriteFails 1)) ''http://h/g/images/g2.jpg'' ''dl'' Map.empty) = Inl OSError \<and>
   download_images (serve_only [''http://h/g/images/g1.jpg'', ''http://h/g/images/g2.jpg''])
     (faulty_disk ''dl/g2.jpg'' (WriteFails 1))
     [''http://h/g/images/g1.jpg'', ''http://h/g/images/g2.jpg''] ''dl'' Map.empty [0, 1] = Inl OSError \<and>
   download_images (serve_only [''http://h/g/images/g1.jpg'', ''http://h/g/images/g2.jpg''])
     (faulty_disk ''dl/g2.jpg'' (WriteFails 1))
     [''http://h/g/images/g1.jpg'', ''http://h/g/images/g2.jpg''] ''dl'' Map.empty [1, 0] = Inl OSError"
  by code_simp

section \<open>What a failed download leaves on disk\<close>






section \<open>The pipeline end to end\<close>


lemma healthy_ok: "\<forall>url \<in> set urls. healthy_disk (path_join folder (basename url)) = NoFault"
  by (simp add: healthy_disk_def)

lemma gallery_extract:
  "extract_base_url_and_name ''https://site.example/gallery42/index.html'' =
     Inr (''https://site.example/gallery42'', ''gallery'')"
  by code_simp

lemma gallery_candidates:
  "generate_image_urls ''https://site.example/gallery42'' ''gallery'' 3 =
     [''https://site.example/gallery42/images/gallery1.jpg'',
      ''https://site.example/gallery42/images/gallery2.jpg'',
      ''https://site.example/gallery42/images/gallery3.jpg'']"
  by code_simp

lemma gallery_failing:
  "filter (transport_fails (serve_only [''https://site.example/gallery42/images/gallery1.jpg'',
        ''https://site.example/gallery42/images/gallery3.jpg'']))
     [''https://site.example/gallery42/images/gallery1.jpg'',
      ''https://site.example/gallery42/images/gallery2.jpg'',
      ''https://site.example/gallery42/images/gallery3.jpg''] =
   [''https://site.example/gallery42/images/gallery2.jpg'']"
  by code_simp

lemma gallery_failing_valid:
  "filter (transport_fails (serve_only [''https://site.example/gallery42/images/gallery1.jpg'',
        ''https://site.example/gallery42/images/gallery3.jpg'']))
     [''https://site.example/gallery42/images/gallery1.jpg'',
      ''https://site.example/gallery42/images/gallery3.jpg''] = []"
  by code_simp

lemma gallery_valid_100:
  "validate_image_urls (serve_only [''https://site.example/gallery42/images/gallery1.jpg'',
        ''https://site.example/gallery42/images/gallery3.jpg''])
     (fetch_all_links ''https://site.example/gallery42'' ''gallery'' 100) =
   [''https://site.example/gallery42/images/gallery1.jpg'',
    ''https://site.example/gallery42/images/gallery3.jpg'']"
  by code_simp

lemma gallery_valid_3:
  "validate_image_urls (serve_only [''https://site.example/gallery42/images/gallery1.jpg'',
        ''https://site.example/gallery42/images/gallery3.jpg''])
     (fetch_all_links ''https://site.example/gallery42'' ''gallery'' 3) =
   [''https://site.example/gallery42/images/gallery1.jpg'',
    ''https://site.example/gallery42/images/gallery3.jpg'']"
  by code_simp

lemma upt_3: "[0..<3] = [0, 1, 2]" by code_simp
lemma upt_2: "[0..<2] = [0, Suc 0]" by code_simp

text \<open>
  C7, as amended. \<^verbatim>\<open>main\<close> of version 1.3 validates before it downloads: with \<open>V\<close> the
  candidates among its 100 that \<^verbatim>\<open>validate_image_urls\<close> keeps (those whose probe answers
  200 with an image content type; a probe that is rejected or raises removes the
  candidate), it prints that no valid image was found when \<open>V\<close> is empty and otherwise
  total \<open>length V\<close>, downloaded and failed, where failed is the number of URLs of \<open>V\<close> the
  transport fails to download: a candidate that is not valid is never counted as failed.
  \<^verbatim>\<open>main\<close> of version 1.4 validates nothing: failed is the number of all generated
  candidates the transport fails. Both hold for every completion order, on a disk without
  faults at the destinations. On the input \<^verbatim>\<open>https://site.example/gallery42/index.html\<close>
  with a transport that serves images for the indices 1 and 3 only: version 1.4 with the
  bound 3 prints total 3, downloaded 2, failed 1; version 1.3, which reads no bound,
  generates 100 candidates, keeps the two valid ones and prints total 2, downloaded 2,
  failed 0; its stages called with the bound 3 give 3 candidates, 2 valid ones, 2 downloads
  and 0 failures.
\<close>

theorem end_to_end_reports:
  "(\<forall>V K. extract_base_url_and_name original_url = Inr (base_url, name) \<and>
      V = validate_image_urls head (fetch_all_links base_url name 100) \<and>
      K = length (filter (transport_fails get) V) \<and>
      (\<forall>url. url \<in> set V \<longrightarrow> disk (path_join dir (basename url)) = NoFault) \<and>
      mset order = mset [0..<length V] \<longrightarrow>
      V = filter (is_image_url head) (fetch_all_links base_url name 100) \<and>
      main_v1_3 head get disk original_url dir files order =
        (if V = [] then NoValidImages else Completed (length V) (length V - K) K)) \<and>
   (\<forall>A K. extract_base_url_and_name original_url = Inr (base_url, name) \<and>
      A = generate_image_urls base_url name max_attempts \<and>
      K = length (filter (transport_fails get) A) \<and>
      (\<forall>url. url \<in> set A \<longrightarrow> disk (path_join dir (basename url)) = NoFault) \<and>
      mset order' = mset [0..<length A] \<longrightarrow>
      main get disk original_url dir max_attempts files order' =
        Completed (length A) (length A - K) K) \<and>
   (mset completion = mset [0, 1, 2] \<longrightarrow>
      main (serve_only [''https://site.example/gallery42/images/gallery1.jpg'',
                        ''https://site.example/gallery42/images/gallery3.jpg''])
        healthy_disk ''https://site.example/gallery42/index.html'' folder 3 fs completion =
      Completed 3 2 1) \<and>
   (mset completion' = mset [0, 1] \<longrightarrow>
      main_v1_3 (serve_only [''https://site.example/gallery42/images/gallery1.jpg'',
                             ''https://site.example/gallery42/images/gallery3.jpg''])
        (serve_only [''https://site.example/gallery42/images/gallery1.jpg'',
                     ''https://site.example/gallery42/images/gallery3.jpg''])
        healthy_disk ''https://site.example/gallery42/index.html'' folder fs completion' =
      Completed 2 2 0 \<and>
      download_images (serve_only [''https://site.example/gallery42/images/gallery1.jpg'',
                                   ''https://site.example/gallery42/images/gallery3.jpg''])
        healthy_disk
        (validate_image_urls (serve_only [''https://site.example/gallery42/images/gallery1.jpg'',
                                          ''https://site.example/gallery42/images/gallery3.jpg''])
           (fetch_all_links ''https://site.example/gallery42'' ''gallery'' 3))
        folder fs completion' = Inr (2, 0)) \<and>
   length (fetch_all_links ''https://site.example/gallery42'' ''gallery'' 100) = 100 \<and>
   length (fetch_all_links ''https://site.example/gallery42'' ''gallery'' 3) = 3 \<and>
   length (validate_image_urls (serve_only [''https://site.example/gallery42/images/gallery1.jpg'',
                                            ''https://site.example/gallery42/images/gallery3.jpg''])
             (fetch_all_links ''https://site.example/gallery42'' ''gallery'' 3)) = 2"
proof -
  let ?u1 = "''https://site.example/gallery42/images/gallery1.jpg''"
  let ?u2 = "''https://site.example/gallery42/images/gallery2.jpg''"
  let ?u3 = "''https://site.example/gallery42/images/gallery3.jpg''"
  let ?get = "serve_only [?u1, ?u3]"
  have a: "mset completion = mset [0, 1, 2] \<longrightarrow>
      main ?get healthy_disk ''https://site.example/gallery42/index.html'' folder 3 fs completion =
      Completed 3 2 1"
  proof
    assume "mset completion = mset [0, 1, 2]"
    then have p: "mset completion = mset [0..<length [?u1, ?u2, ?u3]]" by (simp add: upt_3)
    have "download_images ?get healthy_disk [?u1, ?u2, ?u3] folder fs completion =
        Inr (length [?u1, ?u2, ?u3] - length (filter (transport_fails ?get) [?u1, ?u2, ?u3]),
             length (filter (transport_fails ?get) [?u1, ?u2, ?u3]))"
      using p healthy_ok by (rule download_images_counts)
    then have "download_images ?get healthy_disk [?u1, ?u2, ?u3] folder fs completion = Inr (2, 1)"
      unfolding gallery_failing by simp
    then show "main ?get healthy_disk ''https://site.example/gallery42/index.html'' folder 3 fs completion =
      Completed 3 2 1"
      unfolding main_def gallery_extract by (simp add: gallery_candidates)
  qed
  have d: "mset completion' = mset [0, 1] \<Longrightarrow>
      download_images ?get healthy_disk [?u1, ?u3] folder fs completion' = Inr (2, 0)"
  proof -
    assume "mset completion' = mset [0, 1]"
    then have p: "mset completion' = mset [0..<length [?u1, ?u3]]" by (simp add: upt_2)
    have "download_images ?get healthy_disk [?u1, ?u3] folder fs completion' =
        Inr (length [?u1, ?u3] - length (filter (transport_fails ?get) [?u1, ?u3]),
             length (filter (transport_fails ?get) [?u1, ?u3]))"
      using p healthy_ok by (rule download_images_counts)
    then show ?thesis unfolding gallery_failing_valid by simp
  qed
  have b: "mset completion' = mset [0, 1] \<longrightarrow>
      main_v1_3 ?get ?get healthy_disk ''https://site.example/gallery42/index.html'' folder fs completion' =
      Completed 2 2 0 \<and>
      download_images ?get healthy_disk
        (validate_image_urls ?get (fetch_all_links ''https://site.example/gallery42'' ''gallery'' 3))
        folder fs completion' = Inr (2, 0)"
  proof
    assume h: "mset completion' = mset [0, 1]"
    have "main_v1_3 ?get ?get healthy_disk ''https://site.example/gallery42/index.html'' folder fs completion' =
      Completed 2 2 0"
      unfolding main_v1_3_def gallery_extract using d[OF h] by (simp add: gallery_valid_100)
    moreover have "download_images ?get healthy_disk
        (validate_image_urls ?get (fetch_all_links ''https://site.example/gallery42'' ''gallery'' 3))
        folder fs completion' = Inr (2, 0)"
      unfolding gallery_valid_3 using d[OF h] .
    ultimately show "main_v1_3 ?get ?get healthy_disk ''https://site.example/gallery42/index.html'' folder fs completion' =
      Completed 2 2 0 \<and>
      download_images ?get healthy_disk
        (validate_image_urls ?get (fetch_all_links ''https://site.example/gallery42'' ''gallery'' 3))
        folder fs completion' = Inr (2, 0)" by simp
  qed
  have c: "length (fetch_all_links ''https://site.example/gallery42'' ''gallery'' 100) = 100"
    "length (fetch_all_links ''https://site.example/gallery42'' ''gallery'' 3) = 3"
    by (simp_all add: fetch_all_links_def)
  have e: "length (validate_image_urls ?get (fetch_all_links ''https://site.example/gallery42'' ''gallery'' 3)) = 2"
    unfolding gallery_valid_3 by simp
  have g3: "\<forall>V K. extract_base_url_and_name original_url = Inr (base_url, name) \<and>
      V = validate_image_urls head (fetch_all_links base_url name 100) \<and>
      K = length (filter (transport_fails get) V) \<and>
      (\<forall>url. url \<in> set V \<longrightarrow> disk (path_join dir (basename url)) = NoFault) \<and>
      mset order = mset [0..<length V] \<longrightarrow>
      V = filter (is_image_url head) (fetch_all_links base_url name 100) \<and>
      main_v1_3 head get disk original_url dir files order =
        (if V = [] then NoValidImages else Completed (length V) (length V - K) K)"
  proof (intro allI impI)
    fix V K
    assume h: "extract_base_url_and_name original_url = Inr (base_url, name) \<and>
      V = validate_image_urls head (fetch_all_links base_url name 100) \<and>
      K = length (filter (transport_fails get) V) \<and>
      (\<forall>url. url \<in> set V \<longrightarrow> disk (path_join dir (basename url)) = NoFault) \<and>
      mset order = mset [0..<length V]"
    then have ex: "extract_base_url_and_name original_url = Inr (base_url, name)"
      and V: "validate_image_urls head (fetch_all_links base_url name 100) = V"
      and K: "K = length (filter (transport_fails get) V)"
      and ok: "\<forall>url \<in> set V. disk (path_join dir (basename url)) = NoFault"
      and perm: "mset order = mset [0..<length V]" by auto
    have "download_images get disk V dir files order = Inr (length V - K, K)"
      unfolding K using perm ok by (rule download_images_counts)
    then have m: "main_v1_3 head get disk original_url dir files order =
        (if V = [] then NoValidImages else Completed (length V) (length V - K) K)"
      unfolding main_v1_3_def ex by (simp add: V)
    have "V = filter (is_image_url head) (fetch_all_links base_url name 100)"
      using V validate_image_urls_filter by metis
    with m show "V = filter (is_image_url head) (fetch_all_links base_url name 100) \<and>
      main_v1_3 head get disk original_url dir files order =
        (if V = [] then NoValidImages else Completed (length V) (length V - K) K)" by simp
  qed
  have g4: "\<forall>A K. extract_base_url_and_name original_url = Inr (base_url, name) \<and>
      A = generate_image_urls base_url name max_attempts \<and>
      K = length (filter (transport_fails get) A) \<and>
      (\<forall>url. url \<in> set A \<longrightarrow> disk (path_join dir (basename url)) = NoFault) \<and>
      mset order' = mset [0..<length A] \<longrightarrow>
      main get disk original_url dir max_attempts files order' =
        Completed (length A) (length A - K) K"
  proof (intro allI impI)
    fix A K
    assume h: "extract_base_url_and_name original_url = Inr (base_url, name) \<and>
      A = generate_image_urls base_url name max_attempts \<and>
      K = length (filter (transport_fails get) A) \<and>
      (\<forall>url. url \<in> set A \<longrightarrow> disk (path_join dir (basename url)) = NoFault) \<and>
      mset order' = mset [0..<length A]"
    then have ex: "extract_base_url_and_name original_url = Inr (base_url, name)"
      and A: "generate_image_urls base_url name max_attempts = A"
      and K: "K = length (filter (transport_fails get) A)"
      and ok: "\<forall>url \<in> set A. disk (path_join dir (basename url)) = NoFault"
      and perm: "mset order' = mset [0..<length A]" by auto
    have "download_images get disk A dir files order' = Inr (length A - K, K)"
      unfolding K using perm ok by (rule download_images_counts)
    then show "main get disk original_url dir max_attempts files order' =
        Completed (length A) (length A - K) K"
      unfolding main_def ex by (simp add: A)
  qed
  show ?thesis by (intro conjI; fact)
qed


theorem end_to_end_reports_witness:
  "mset [2, 0, 1] = mset [0, 1, 2 :: nat] \<and>
   main (serve_only [''https://site.example/gallery42/images/gallery1.jpg'',
                     ''https://site.example/gallery42/images/gallery3.jpg''])
     healthy_disk ''https://site.example/gallery42/index.html'' ''dl'' 3 Map.empty [2, 0, 1] =
     Completed 3 2 1 \<and>
   mset [1, 0] = mset [0, 1 :: nat] \<and>
   main_v1_3 (serve_only [''https://site.example/gallery42/images/gallery1.jpg'',
                          ''https://site.example/gallery42/images/gallery3.jpg''])
     (serve_only [''https://site.example/gallery42/images/gallery1.jpg'',
                  ''https://site.example/gallery42/images/gallery3.jpg''])
     healthy_disk ''https://site.example/gallery42/index.html'' ''dl'' Map.empty [1, 0] =
     Completed 2 2 0 \<and>
   validate_image_urls timing_out (fetch_all_links ''https://site.example/gallery42'' ''gallery'' 100) = [] \<and>
   main_v1_3 timing_out
     (serve_only [''https://site.example/gallery42/images/gallery1.jpg'',
                  ''https://site.example/gallery42/images/gallery3.jpg''])
     healthy_disk ''https://site.example/gallery42/index.html'' ''dl'' Map.empty [] =
     NoValidImages"
proof -
  define u where "u = ''https://site.example/gallery42/index.html''"
  define b where "b = ''https://site.example/gallery42''"
  define g where "g = ''gallery''"
  define get where "get = serve_only [''https://site.example/gallery42/images/gallery1.jpg'',
                     ''https://site.example/gallery42/images/gallery3.jpg'']"
  define dl where "dl = ''dl''"
  have p3: "mset [2, 0, 1] = mset [0, 1, 2 :: nat]" by simp
  have p2: "mset [1, 0] = mset [0, 1 :: nat]" by simp
  note t = end_to_end_reports[of u b g timing_out get healthy_disk dl "[]" Map.empty 3 "[]" "[2, 0, 1]" dl Map.empty "[1, 0]",
      unfolded u_def get_def dl_def]
  from t p3 have m4: "main (serve_only [''https://site.example/gallery42/images/gallery1.jpg'',
                     ''https://site.example/gallery42/images/gallery3.jpg''])
     healthy_disk ''https://site.example/gallery42/index.html'' ''dl'' 3 Map.empty [2, 0, 1] =
     Completed 3 2 1" by simp
  from t p2 have m3: "main_v1_3 (serve_only [''https://site.example/gallery42/images/gallery1.jpg'',
                          ''https://site.example/gallery42/images/gallery3.jpg''])
     (serve_only [''https://site.example/gallery42/images/gallery1.jpg'',
                  ''https://site.example/gallery42/images/gallery3.jpg''])
     healthy_disk ''https://site.example/gallery42/index.html'' ''dl'' Map.empty [1, 0] =
     Completed 2 2 0" by simp
  have ex: "extract_base_url_and_name u = Inr (b, g)" unfolding u_def b_def g_def by (rule gallery_extract)
  have none: "validate_image_urls timing_out (fetch_all_links b g 100) = []"
    by (simp add: validate_image_urls_filter is_image_url_def timing_out_def)
  have g3: "\<forall>V K. extract_base_url_and_name u = Inr (b, g) \<and>
      V = validate_image_urls timing_out (fetch_all_links b g 100) \<and>
      K = length (filter (transport_fails get) V) \<and>
      (\<forall>url. url \<in> set V \<longrightarrow> healthy_disk (path_join dl (basename url)) = NoFault) \<and>
      mset [] = mset [0..<length V] \<longrightarrow>
      V = filter (is_image_url timing_out) (fetch_all_links b g 100) \<and>
      main_v1_3 timing_out get healthy_disk u dl Map.empty [] =
        (if V = [] then NoValidImages else Completed (length V) (length V - K) K)"
    using end_to_end_reports[of u b g timing_out get healthy_disk dl "[]" Map.empty 3 "[]" "[2, 0, 1]" dl Map.empty "[1, 0]"]
    by (rule conjunct1)
  have "main_v1_3 timing_out get healthy_disk u dl Map.empty [] =
        (if ([]::string list) = [] then NoValidImages else Completed (length ([]::string list)) (length ([]::string list) - 0) 0)"
    using g3[rule_format, of "[]" 0] ex none by simp
  then have to: "main_v1_3 timing_out get healthy_disk u dl Map.empty [] = NoValidImages" by simp
  show ?thesis
  proof (intro conjI)
    show "mset [2, 0, 1] = mset [0, 1, 2 :: nat]" by (rule p3)
    show "mset [1, 0] = mset [0, 1 :: nat]" by (rule p2)
    show "main (serve_only [''https://site.example/gallery42/images/gallery1.jpg'',
                     ''https://site.example/gallery42/images/gallery3.jpg''])
        healthy_disk ''https://site.example/gallery42/index.html'' ''dl'' 3 Map.empty [2, 0, 1] =
        Completed 3 2 1" by (rule m4)
    show "main_v1_3 (serve_only [''https://site.example/gallery42/images/gallery1.jpg'',
                          ''https://site.example/gallery42/images/gallery3.jpg''])
        (serve_only [''https://site.example/gallery42/images/gallery1.jpg'',
                  ''https://site.example/gallery42/images/gallery3.jpg''])
        healthy_disk ''https://site.example/gallery42/index.html'' ''dl'' Map.empty [1, 0] =
        Completed 2 2 0" by (rule m3)
    show "validate_image_urls timing_out (fetch_all_links ''https://site.example/gallery42'' ''gallery'' 100) = []"
      using none unfolding b_def g_def .
    show "main_v1_3 timing_out
        (serve_only [''https://site.example/gallery42/images/gallery1.jpg'',
                  ''https://site.example/gallery42/images/gallery3.jpg''])
        healthy_disk ''https://site.example/gallery42/index.html'' ''dl'' Map.empty [] =
        NoValidImages"
      using to unfolding u_def get_def dl_def .
  qed
qed

text \<open>
  Version 1.4 on the end-to-end example: three candidates, two downloads and one failure,
  the candidate that does not exist.
\<close>

theorem end_to_end_counterexample:
  "main (serve_only [''https://site.example/gallery42/images/gallery1.jpg'',
                     ''https://site.example/gallery42/images/gallery3.jpg''])
     healthy_disk ''https://site.example/gallery42/index.html'' ''dl'' 3 Map.empty [0, 1, 2] =
     Completed 3 2 1"
  by code_simp

section \<open>Adaptive discovery\<close>

lemma failures_after_shift:
  "failures_after ok f i (Suc n) = failures_after ok (if ok i then 0 else Suc f) (i + 1) n"
proof (induction n)
  case 0
  then show ?case by simp
next
  case (Suc n)
  have e: "i + int (Suc n) = i + 1 + int n" by simp
  have "failures_after ok f i (Suc (Suc n)) =
      (if ok (i + int (Suc n)) then 0 else Suc (failures_after ok f i (Suc n)))"
    by (rule failures_after.simps(2))
  also have "\<dots> = (if ok (i + 1 + int n) then 0
                     else Suc (failures_after ok (if ok i then 0 else Suc f) (i + 1) n))"
    unfolding e Suc.IH ..
  also have "\<dots> = failures_after ok (if ok i then 0 else Suc f) (i + 1) (Suc n)"
    by (rule failures_after.simps(2)[symmetric])
  finally show ?case .
qed

lemma failures_after_le: "failures_after ok 0 i n \<le> n"
  by (induction n) auto

lemma failures_after_ge3:
  "3 \<le> failures_after ok 0 i n \<longleftrightarrow>
     3 \<le> n \<and> \<not> ok (i + int n - 1) \<and> \<not> ok (i + int n - 2) \<and> \<not> ok (i + int n - 3)"
proof (cases "n < 3")
  case True
  then show ?thesis using failures_after_le[of ok i n] by simp
next
  case False
  then have "n = Suc (Suc (Suc (n - 3)))" by simp
  then obtain m where n: "n = Suc (Suc (Suc m))" ..
  have a: "i + int (Suc (Suc (Suc m))) - 1 = i + int (Suc (Suc m))"
    and b: "i + int (Suc (Suc (Suc m))) - 2 = i + int (Suc m)"
    and c: "i + int (Suc (Suc (Suc m))) - 3 = i + int m" by simp_all
  show ?thesis unfolding n a b c by (simp del: of_nat_Suc)
qed

lemma discover_loop_unroll:
  assumes "\<forall>k<n. failures_after (accepted head b nm) f i k < 3"
  shows "discover_loop head b nm probed disc f i =
         discover_loop head b nm
           (probed @ map (image_url b nm) [i .. i + int n - 1])
           (disc @ map (image_url b nm) (filter (accepted head b nm) [i .. i + int n - 1]))
           (failures_after (accepted head b nm) f i n) (i + int n)"
  using assms
proof (induction n)
  case 0
  then show ?case by simp
next
  case (Suc n)
  let ?ok = "accepted head b nm"
  let ?P = "probed @ map (image_url b nm) [i .. i + int n - 1]"
  let ?D = "disc @ map (image_url b nm) (filter ?ok [i .. i + int n - 1])"
  from Suc.prems have lt: "failures_after ?ok f i n < 3" by simp
  from Suc.prems have "\<forall>k<n. failures_after ?ok f i k < 3" by simp
  then have ih: "discover_loop head b nm probed disc f i =
      discover_loop head b nm ?P ?D (failures_after ?ok f i n) (i + int n)"
    by (rule Suc.IH)
  have up: "[i .. i + int (Suc n) - 1] = [i .. i + int n - 1] @ [i + int n]"
    using upto_rec2[of i "i + int n"] by simp
  have idx: "i + int n + 1 = i + int (Suc n)" by simp
  show ?case
  proof (cases "?ok (i + int n)")
    case True
    then have img: "is_image_url head (image_url b nm (i + int n))" by (simp add: accepted_def)
    have "discover_loop head b nm ?P ?D (failures_after ?ok f i n) (i + int n) =
        discover_loop head b nm (?P @ [image_url b nm (i + int n)])
          (?D @ [image_url b nm (i + int n)]) 0 (i + int n + 1)"
      using discover_loop.simps[of head b nm ?P ?D "failures_after ?ok f i n" "i + int n"] lt img
      by simp
    then show ?thesis unfolding ih up idx using True by (simp del: of_nat_Suc)
  next
    case False
    then have img: "\<not> is_image_url head (image_url b nm (i + int n))" by (simp add: accepted_def)
    have "discover_loop head b nm ?P ?D (failures_after ?ok f i n) (i + int n) =
        discover_loop head b nm (?P @ [image_url b nm (i + int n)])
          ?D (failures_after ?ok f i n + 1) (i + int n + 1)"
      using discover_loop.simps[of head b nm ?P ?D "failures_after ?ok f i n" "i + int n"] lt img
      by simp
    then show ?thesis unfolding ih up idx using False by (simp del: of_nat_Suc)
  qed
qed

lemma discover_loop_exit:
  assumes "\<forall>k<n. failures_after (accepted head b nm) f i k < 3"
    and "3 \<le> failures_after (accepted head b nm) f i n"
  shows "discover_loop head b nm probed disc f i =
         Some (disc @ map (image_url b nm) (filter (accepted head b nm) [i .. i + int n - 1]),
               probed @ map (image_url b nm) [i .. i + int n - 1])"
proof -
  let ?ok = "accepted head b nm"
  let ?P = "probed @ map (image_url b nm) [i .. i + int n - 1]"
  let ?D = "disc @ map (image_url b nm) (filter ?ok [i .. i + int n - 1])"
  have "discover_loop head b nm ?P ?D (failures_after ?ok f i n) (i + int n) = Some (?D, ?P)"
    using discover_loop.simps[of head b nm ?P ?D "failures_after ?ok f i n" "i + int n"] assms(2)
    by simp
  then show ?thesis using discover_loop_unroll[OF assms(1)] by simp
qed

lemma discover_first_window:
  assumes m: "1 \<le> m"
    and w: "\<not> accepted head b nm m" "\<not> accepted head b nm (m + 1)" "\<not> accepted head b nm (m + 2)"
    and first: "\<forall>j. 1 \<le> j \<and> j < m \<longrightarrow>
                  accepted head b nm j \<or> accepted head b nm (j + 1) \<or> accepted head b nm (j + 2)"
  shows "discover_image_urls head b nm =
           Some (map (image_url b nm) (filter (accepted head b nm) [1 .. m + 2]),
                 map (image_url b nm) [1 .. m + 2])"
proof -
  let ?ok = "accepted head b nm"
  let ?n = "nat (m + 2)"
  have n: "int ?n = m + 2" using m by simp
  have before: "\<forall>k<?n. failures_after ?ok 0 1 k < 3"
  proof (intro allI impI)
    fix k assume k: "k < ?n"
    show "failures_after ?ok 0 1 k < 3"
    proof (rule ccontr)
      assume "\<not> failures_after ?ok 0 1 k < 3"
      then have "3 \<le> failures_after ?ok 0 1 k" by simp
      then have k3: "3 \<le> k" and f: "\<not> ?ok (1 + int k - 1)" "\<not> ?ok (1 + int k - 2)" "\<not> ?ok (1 + int k - 3)"
        using failures_after_ge3[of ?ok 1 k] by blast+
      define j where "j = int k - 2"
      have "int k < m + 2" using k m by simp
      then have jb: "1 \<le> j \<and> j < m" using k3 by (simp add: j_def)
      have "1 \<le> j \<and> j < m \<longrightarrow> ?ok j \<or> ?ok (j + 1) \<or> ?ok (j + 2)"
        using first by (rule spec)
      with jb have o: "?ok j \<or> ?ok (j + 1) \<or> ?ok (j + 2)" by (rule rev_mp)
      have "1 + int k - 3 = j" "1 + int k - 2 = j + 1" "1 + int k - 1 = j + 2"
        by (simp_all add: j_def)
      with f have "\<not> ?ok j" "\<not> ?ok (j + 1)" "\<not> ?ok (j + 2)" by simp_all
      with o show False by simp
    qed
  qed
  have n3: "3 \<le> ?n" using m by simp
  have e: "1 + int ?n - 1 = m + 2" and e2: "1 + int ?n - 2 = m + 1" and e3: "1 + int ?n - 3 = m"
    using m by simp_all
  have "3 \<le> ?n \<and> \<not> ?ok (1 + int ?n - 1) \<and> \<not> ?ok (1 + int ?n - 2) \<and> \<not> ?ok (1 + int ?n - 3)"
    unfolding e e2 e3 using n3 w by blast
  then have at: "3 \<le> failures_after ?ok 0 1 ?n"
    by (rule failures_after_ge3[THEN iffD2])
  show ?thesis
    unfolding discover_image_urls_def
    using discover_loop_exit[OF before at, of "[]" "[]"] unfolding e by simp
qed

lemma discover_loop_returns:
  assumes a: "discover_loop head b nm probed disc f i = Some y"
  shows "\<exists>n. 3 \<le> failures_after (accepted head b nm) f i n"
proof (rule discover_loop.raw_induct[where P = "\<lambda>head b nm probed disc f i y.
         \<exists>n. 3 \<le> failures_after (accepted head b nm) f i n", OF _ a])
  fix loop :: "transport \<Rightarrow> string \<Rightarrow> string \<Rightarrow> string list \<Rightarrow> string list \<Rightarrow> nat \<Rightarrow> int
     \<Rightarrow> (string list \<times> string list) option"
  fix head b nm probed disc f i y
  assume ih: "\<And>h b nm p d f i y. loop h b nm p d f i = Some y \<Longrightarrow>
                 \<exists>n. 3 \<le> failures_after (accepted h b nm) f i n"
    and body: "(if f < 3
      then if is_image_url head (image_url b nm i)
           then loop head b nm (probed @ [image_url b nm i]) (disc @ [image_url b nm i]) 0 (i + 1)
           else loop head b nm (probed @ [image_url b nm i]) disc (f + 1) (i + 1)
      else Some (disc, probed)) = Some y"
  let ?ok = "accepted head b nm"
  show "\<exists>n. 3 \<le> failures_after ?ok f i n"
  proof (cases "f < 3")
    case False
    then have "3 \<le> failures_after ?ok f i 0" by simp
    then show ?thesis by blast
  next
    case True
    show ?thesis
    proof (cases "?ok i")
      case ok: True
      with True body have "loop head b nm (probed @ [image_url b nm i]) (disc @ [image_url b nm i]) 0 (i + 1) = Some y"
        by (simp add: accepted_def)
      from ih[OF this] obtain n where "3 \<le> failures_after ?ok 0 (i + 1) n" by blast
      then have "3 \<le> failures_after ?ok f i (Suc n)"
        unfolding failures_after_shift using ok by simp
      then show ?thesis by blast
    next
      case no: False
      with True body have "loop head b nm (probed @ [image_url b nm i]) disc (f + 1) (i + 1) = Some y"
        by (simp add: accepted_def)
      from ih[OF this] obtain n where "3 \<le> failures_after ?ok (f + 1) (i + 1) n" by blast
      then have "3 \<le> failures_after ?ok f i (Suc n)"
        unfolding failures_after_shift using no by simp
      then show ?thesis by blast
    qed
  qed
qed

lemma window_least:
  assumes "1 \<le> m" "\<not> ok m" "\<not> ok (m + 1)" "\<not> ok (m + (2::int))"
  shows "\<exists>m'. 1 \<le> m' \<and> \<not> ok m' \<and> \<not> ok (m' + 1) \<and> \<not> ok (m' + 2) \<and>
           (\<forall>j. 1 \<le> j \<and> j < m' \<longrightarrow> ok j \<or> ok (j + 1) \<or> ok (j + 2))"
proof -
  let ?W = "\<lambda>k::nat. 1 \<le> k \<and> \<not> ok (int k) \<and> \<not> ok (int k + 1) \<and> \<not> ok (int k + 2)"
  have "?W (nat m)" using assms by simp
  then have l: "?W (LEAST k. ?W k)" by (rule LeastI)
  let ?k = "LEAST k. ?W k"
  have "\<forall>j. 1 \<le> j \<and> j < int ?k \<longrightarrow> ok j \<or> ok (j + 1) \<or> ok (j + 2)"
  proof (intro allI impI)
    fix j :: int assume j: "1 \<le> j \<and> j < int ?k"
    show "ok j \<or> ok (j + 1) \<or> ok (j + 2)"
    proof (rule ccontr)
      assume "\<not> (ok j \<or> ok (j + 1) \<or> ok (j + 2))"
      moreover have "1 \<le> nat j" "int (nat j) = j" using j by (simp_all add: Suc_le_eq)
      ultimately have "?W (nat j)" by simp
      then have "?k \<le> nat j" by (rule Least_le)
      with j show False by linarith
    qed
  qed
  with l show ?thesis by (intro exI[of _ "int ?k"]) simp
qed

lemma upto_1_6: "[1..6] = [1, 2, 3, 4, 5, 6::int]" by code_simp

text \<open>
  C2. When the indices \<open>m\<close>, \<open>m + 1\<close> and \<open>m + 2\<close> are the first three consecutive
  candidates the prober rejects (so \<open>m - 1\<close>, if there is one, is the last candidate it
  accepted), \<^verbatim>\<open>discover_image_urls\<close> returns: it has probed exactly the candidates 1 to
  \<open>m + 2\<close>, \<open>m + 2\<close> probes and none beyond, and returns the accepted ones among them. In
  particular, when the prober accepts the indices 1, 2, 3 and rejects 4, 5, 6, the loop makes
  6 probes and returns the 3 URLs of the indices 1 to 3. The threshold is the constant 3 of
  the \<^verbatim>\<open>while\<close> condition.
\<close>

theorem discover_image_urls_stops:
  "(1 \<le> m \<and> \<not> accepted head b nm m \<and> \<not> accepted head b nm (m + 1) \<and> \<not> accepted head b nm (m + 2) \<and>
    (\<forall>j. 1 \<le> j \<and> j < m \<longrightarrow>
       accepted head b nm j \<or> accepted head b nm (j + 1) \<or> accepted head b nm (j + 2)) \<longrightarrow>
    (\<exists>urls probed. discover_image_urls head b nm = Some (urls, probed) \<and>
       probed = map (image_url b nm) [1 .. m + 2] \<and> length probed = nat (m + 2) \<and>
       urls = map (image_url b nm) (filter (accepted head b nm) [1 .. m + 2]))) \<and>
   ((\<forall>i. 1 \<le> i \<and> i \<le> 6 \<longrightarrow> accepted head b nm i = (i \<le> 3)) \<longrightarrow>
    discover_image_urls head b nm =
      Some (map (image_url b nm) [1, 2, 3], map (image_url b nm) [1, 2, 3, 4, 5, 6]))"
proof (intro conjI impI)
  assume h: "1 \<le> m \<and> \<not> accepted head b nm m \<and> \<not> accepted head b nm (m + 1) \<and> \<not> accepted head b nm (m + 2) \<and>
    (\<forall>j. 1 \<le> j \<and> j < m \<longrightarrow>
       accepted head b nm j \<or> accepted head b nm (j + 1) \<or> accepted head b nm (j + 2))"
  then have "discover_image_urls head b nm =
      Some (map (image_url b nm) (filter (accepted head b nm) [1 .. m + 2]),
            map (image_url b nm) [1 .. m + 2])"
    using discover_first_window[of m head b nm] by blast
  moreover have "length (map (image_url b nm) [1 .. m + 2]) = nat (m + 2)" by simp
  ultimately show "\<exists>urls probed. discover_image_urls head b nm = Some (urls, probed) \<and>
       probed = map (image_url b nm) [1 .. m + 2] \<and> length probed = nat (m + 2) \<and>
       urls = map (image_url b nm) (filter (accepted head b nm) [1 .. m + 2])"
    by blast
next
  assume h: "\<forall>i. 1 \<le> i \<and> i \<le> 6 \<longrightarrow> accepted head b nm i = (i \<le> 3)"
  let ?ok = "accepted head b nm"
  have a: "?ok 1" "?ok 2" "?ok 3" "\<not> ?ok 4" "\<not> ?ok 5" "\<not> ?ok 6" using h by simp_all
  have first: "\<forall>j. 1 \<le> j \<and> j < 4 \<longrightarrow> ?ok j \<or> ?ok (j + 1) \<or> ?ok (j + 2)"
  proof (intro allI impI)
    fix j :: int assume "1 \<le> j \<and> j < 4"
    then have "j = 1 \<or> j = 2 \<or> j = 3" by arith
    with a show "?ok j \<or> ?ok (j + 1) \<or> ?ok (j + 2)" by auto
  qed
  have w: "\<not> ?ok 4" "\<not> ?ok (4 + 1)" "\<not> ?ok (4 + 2)" using a by simp_all
  have "discover_image_urls head b nm =
      Some (map (image_url b nm) (filter ?ok [1 .. 4 + 2]), map (image_url b nm) [1 .. 4 + 2])"
    using discover_first_window[of 4 head b nm, OF _ w first] by simp
  moreover have "[1 .. 4 + 2] = [1, 2, 3, 4, 5, 6::int]" using upto_1_6 by simp
  moreover have "filter ?ok [1, 2, 3, 4, 5, 6] = [1, 2, 3]" using a by simp
  ultimately show "discover_image_urls head b nm =
      Some (map (image_url b nm) [1, 2, 3], map (image_url b nm) [1, 2, 3, 4, 5, 6])"
    by simp
qed

lemma gallery_accepted:
  "accepted (serve_only [''https://site.example/gallery42/images/gallery1.jpg'',
      ''https://site.example/gallery42/images/gallery2.jpg'',
      ''https://site.example/gallery42/images/gallery3.jpg''])
     ''https://site.example/gallery42'' ''gallery'' 1"
  "accepted (serve_only [''https://site.example/gallery42/images/gallery1.jpg'',
      ''https://site.example/gallery42/images/gallery2.jpg'',
      ''https://site.example/gallery42/images/gallery3.jpg''])
     ''https://site.example/gallery42'' ''gallery'' 2"
  "accepted (serve_only [''https://site.example/gallery42/images/gallery1.jpg'',
      ''https://site.example/gallery42/images/gallery2.jpg'',
      ''https://site.example/gallery42/images/gallery3.jpg''])
     ''https://site.example/gallery42'' ''gallery'' 3"
  "\<not> accepted (serve_only [''https://site.example/gallery42/images/gallery1.jpg'',
      ''https://site.example/gallery42/images/gallery2.jpg'',
      ''https://site.example/gallery42/images/gallery3.jpg''])
     ''https://site.example/gallery42'' ''gallery'' 4"
  "\<not> accepted (serve_only [''https://site.example/gallery42/images/gallery1.jpg'',
      ''https://site.example/gallery42/images/gallery2.jpg'',
      ''https://site.example/gallery42/images/gallery3.jpg''])
     ''https://site.example/gallery42'' ''gallery'' 5"
  "\<not> accepted (serve_only [''https://site.example/gallery42/images/gallery1.jpg'',
      ''https://site.example/gallery42/images/gallery2.jpg'',
      ''https://site.example/gallery42/images/gallery3.jpg''])
     ''https://site.example/gallery42'' ''gallery'' 6"
  by code_simp+

lemma gallery_urls:
  "map (image_url ''https://site.example/gallery42'' ''gallery'') [1, 2, 3] =
     [''https://site.example/gallery42/images/gallery1.jpg'',
      ''https://site.example/gallery42/images/gallery2.jpg'',
      ''https://site.example/gallery42/images/gallery3.jpg'']"
  "map (image_url ''https://site.example/gallery42'' ''gallery'') [1, 2, 3, 4, 5, 6] =
     [''https://site.example/gallery42/images/gallery1.jpg'',
      ''https://site.example/gallery42/images/gallery2.jpg'',
      ''https://site.example/gallery42/images/gallery3.jpg'',
      ''https://site.example/gallery42/images/gallery4.jpg'',
      ''https://site.example/gallery42/images/gallery5.jpg'',
      ''https://site.example/gallery42/images/gallery6.jpg'']"
  by code_simp+

theorem discover_image_urls_stops_witness:
  "discover_image_urls (serve_only [''https://site.example/gallery42/images/gallery1.jpg'',
      ''https://site.example/gallery42/images/gallery2.jpg'',
      ''https://site.example/gallery42/images/gallery3.jpg''])
     ''https://site.example/gallery42'' ''gallery'' =
   Some ([''https://site.example/gallery42/images/gallery1.jpg'',
          ''https://site.example/gallery42/images/gallery2.jpg'',
          ''https://site.example/gallery42/images/gallery3.jpg''],
         [''https://site.example/gallery42/images/gallery1.jpg'',
          ''https://site.example/gallery42/images/gallery2.jpg'',
          ''https://site.example/gallery42/images/gallery3.jpg'',
          ''https://site.example/gallery42/images/gallery4.jpg'',
          ''https://site.example/gallery42/images/gallery5.jpg'',
          ''https://site.example/gallery42/images/gallery6.jpg''])"
proof -
  let ?T = "serve_only [''https://site.example/gallery42/images/gallery1.jpg'',
      ''https://site.example/gallery42/images/gallery2.jpg'',
      ''https://site.example/gallery42/images/gallery3.jpg'']"
  let ?ok = "accepted ?T ''https://site.example/gallery42'' ''gallery''"
  have h: "\<forall>i. 1 \<le> i \<and> i \<le> 6 \<longrightarrow> ?ok i = (i \<le> 3)"
  proof (intro allI impI)
    fix i :: int assume "1 \<le> i \<and> i \<le> 6"
    then have "i = 1 \<or> i = 2 \<or> i = 3 \<or> i = 4 \<or> i = 5 \<or> i = 6" by arith
    then show "?ok i = (i \<le> 3)" using gallery_accepted by auto
  qed
  from discover_image_urls_stops[of 4 ?T "''https://site.example/gallery42''" "''gallery''"] h
  have "discover_image_urls ?T ''https://site.example/gallery42'' ''gallery'' =
      Some (map (image_url ''https://site.example/gallery42'' ''gallery'') [1, 2, 3],
            map (image_url ''https://site.example/gallery42'' ''gallery'') [1, 2, 3, 4, 5, 6])"
    by blast
  then show ?thesis unfolding gallery_urls .
qed

text \<open>
  C10. \<^verbatim>\<open>discover_image_urls\<close> returns if and only if the prober rejects three consecutive
  candidates somewhere; with a prober that accepts every candidate it runs forever. When
  it returns, \<open>m\<close> being the first index that starts three consecutive rejections, the
  candidates probed are exactly those of the indices 1 to \<open>m + 2\<close> and the list returned
  holds exactly the URLs of the accepted indices among them, in strictly increasing order
  of the index.
\<close>

theorem discover_image_urls_terminates_iff:
  "(discover_image_urls head b nm \<noteq> None) =
     (\<exists>m. 1 \<le> m \<and> \<not> accepted head b nm m \<and> \<not> accepted head b nm (m + 1) \<and> \<not> accepted head b nm (m + 2)) \<and>
   ((\<forall>i. 1 \<le> i \<longrightarrow> accepted head b nm i) \<longrightarrow> discover_image_urls head b nm = None) \<and>
   (\<forall>urls probed. discover_image_urls head b nm = Some (urls, probed) \<longrightarrow>
      (\<exists>m. 1 \<le> m \<and>
           \<not> accepted head b nm m \<and> \<not> accepted head b nm (m + 1) \<and> \<not> accepted head b nm (m + 2) \<and>
           (\<forall>j. 1 \<le> j \<and> j < m \<longrightarrow>
              accepted head b nm j \<or> accepted head b nm (j + 1) \<or> accepted head b nm (j + 2)) \<and>
           probed = map (image_url b nm) [1 .. m + 2] \<and>
           urls = map (image_url b nm) (filter (accepted head b nm) [1 .. m + 2]) \<and>
           sorted_wrt (<) (filter (accepted head b nm) [1 .. m + 2])))"
proof -
  let ?ok = "accepted head b nm"
  let ?W = "\<exists>m. 1 \<le> m \<and> \<not> ?ok m \<and> \<not> ?ok (m + 1) \<and> \<not> ?ok (m + 2)"
  have value_of: "?W \<Longrightarrow> \<exists>m. 1 \<le> m \<and> \<not> ?ok m \<and> \<not> ?ok (m + 1) \<and> \<not> ?ok (m + 2) \<and>
      (\<forall>j. 1 \<le> j \<and> j < m \<longrightarrow> ?ok j \<or> ?ok (j + 1) \<or> ?ok (j + 2)) \<and>
      discover_image_urls head b nm =
        Some (map (image_url b nm) (filter ?ok [1 .. m + 2]), map (image_url b nm) [1 .. m + 2])"
  proof -
    assume ?W
    then obtain m where "1 \<le> m" "\<not> ?ok m" "\<not> ?ok (m + 1)" "\<not> ?ok (m + 2)" by blast
    from window_least[of m ?ok, OF this] obtain m' where
      m': "1 \<le> m'" "\<not> ?ok m'" "\<not> ?ok (m' + 1)" "\<not> ?ok (m' + 2)"
      "\<forall>j. 1 \<le> j \<and> j < m' \<longrightarrow> ?ok j \<or> ?ok (j + 1) \<or> ?ok (j + 2)" by blast
    from discover_first_window[OF m'] m' show ?thesis by blast
  qed
  have returns: "discover_image_urls head b nm \<noteq> None \<Longrightarrow> ?W"
  proof -
    assume "discover_image_urls head b nm \<noteq> None"
    then obtain y where "discover_loop head b nm [] [] 0 1 = Some y"
      unfolding discover_image_urls_def by blast
    from discover_loop_returns[OF this] obtain n where "3 \<le> failures_after ?ok 0 1 n" by blast
    then have n: "3 \<le> n" and f: "\<not> ?ok (1 + int n - 1)" "\<not> ?ok (1 + int n - 2)" "\<not> ?ok (1 + int n - 3)"
      using failures_after_ge3[of ?ok 1 n] by blast+
    define m where "m = int n - 2"
    have "1 + int n - 3 = m" "1 + int n - 2 = m + 1" "1 + int n - 1 = m + 2" by (simp_all add: m_def)
    with f have "\<not> ?ok m" "\<not> ?ok (m + 1)" "\<not> ?ok (m + 2)" by simp_all
    moreover have "1 \<le> m" using n by (simp add: m_def)
    ultimately show ?W by blast
  qed
  have iff: "(discover_image_urls head b nm \<noteq> None) = ?W"
  proof
    assume "discover_image_urls head b nm \<noteq> None"
    then show ?W by (rule returns)
  next
    assume ?W
    from value_of[OF this] show "discover_image_urls head b nm \<noteq> None" by auto
  qed
  have forever: "(\<forall>i. 1 \<le> i \<longrightarrow> ?ok i) \<longrightarrow> discover_image_urls head b nm = None"
    using returns by blast
  have result: "\<forall>urls probed. discover_image_urls head b nm = Some (urls, probed) \<longrightarrow>
      (\<exists>m. 1 \<le> m \<and> \<not> ?ok m \<and> \<not> ?ok (m + 1) \<and> \<not> ?ok (m + 2) \<and>
           (\<forall>j. 1 \<le> j \<and> j < m \<longrightarrow> ?ok j \<or> ?ok (j + 1) \<or> ?ok (j + 2)) \<and>
           probed = map (image_url b nm) [1 .. m + 2] \<and>
           urls = map (image_url b nm) (filter ?ok [1 .. m + 2]) \<and>
           sorted_wrt (<) (filter ?ok [1 .. m + 2]))"
  proof (intro allI impI)
    fix urls probed
    assume s: "discover_image_urls head b nm = Some (urls, probed)"
    then have "discover_image_urls head b nm \<noteq> None" by simp
    then have ?W by (rule returns)
    from value_of[OF this] obtain m where
      m: "1 \<le> m" "\<not> ?ok m" "\<not> ?ok (m + 1)" "\<not> ?ok (m + 2)"
      "\<forall>j. 1 \<le> j \<and> j < m \<longrightarrow> ?ok j \<or> ?ok (j + 1) \<or> ?ok (j + 2)"
      and v: "discover_image_urls head b nm =
        Some (map (image_url b nm) (filter ?ok [1 .. m + 2]), map (image_url b nm) [1 .. m + 2])"
      by blast
    from s v have "probed = map (image_url b nm) [1 .. m + 2]"
      "urls = map (image_url b nm) (filter ?ok [1 .. m + 2])" by simp_all
    moreover have "sorted_wrt (<) (filter ?ok [1 .. m + 2])"
      by (rule sorted_wrt_filter) (rule sorted_wrt_upto)
    ultimately show "\<exists>m. 1 \<le> m \<and> \<not> ?ok m \<and> \<not> ?ok (m + 1) \<and> \<not> ?ok (m + 2) \<and>
           (\<forall>j. 1 \<le> j \<and> j < m \<longrightarrow> ?ok j \<or> ?ok (j + 1) \<or> ?ok (j + 2)) \<and>
           probed = map (image_url b nm) [1 .. m + 2] \<and>
           urls = map (image_url b nm) (filter ?ok [1 .. m + 2]) \<and>
           sorted_wrt (<) (filter ?ok [1 .. m + 2])"
      using m by blast
  qed
  show ?thesis by (intro conjI; fact)
qed

lemma serve_all_accepted: "accepted serve_all b nm i"
  by (simp add: accepted_def is_image_url_def serve_all_def image_response_def content_type_def
      startswith_def)

theorem discover_image_urls_terminates_iff_witness:
  "(\<forall>i. accepted serve_all ''https://site.example/gallery42'' ''gallery'' i) \<and>
   discover_image_urls serve_all ''https://site.example/gallery42'' ''gallery'' = None \<and>
   discover_image_urls (serve_only [''https://site.example/gallery42/images/gallery1.jpg'',
       ''https://site.example/gallery42/images/gallery3.jpg''])
     ''https://site.example/gallery42'' ''gallery'' =
   Some ([''https://site.example/gallery42/images/gallery1.jpg'',
          ''https://site.example/gallery42/images/gallery3.jpg''],
         [''https://site.example/gallery42/images/gallery1.jpg'',
          ''https://site.example/gallery42/images/gallery2.jpg'',
          ''https://site.example/gallery42/images/gallery3.jpg'',
          ''https://site.example/gallery42/images/gallery4.jpg'',
          ''https://site.example/gallery42/images/gallery5.jpg'',
          ''https://site.example/gallery42/images/gallery6.jpg''])"
proof -
  define b where "b = ''https://site.example/gallery42''"
  define g where "g = ''gallery''"
  define T where "T = serve_only [''https://site.example/gallery42/images/gallery1.jpg'',
       ''https://site.example/gallery42/images/gallery3.jpg'']"
  have all: "\<forall>i. accepted serve_all b g i" using serve_all_accepted by blast
  then have h: "\<forall>i. 1 \<le> i \<longrightarrow> accepted serve_all b g i" by blast
  from discover_image_urls_terminates_iff[of serve_all b g] h
  have none: "discover_image_urls serve_all b g = None" by blast
  have ok: "accepted T b g 1" "\<not> accepted T b g 2" "accepted T b g 3"
    "\<not> accepted T b g 4" "\<not> accepted T b g 5" "\<not> accepted T b g 6"
    unfolding T_def b_def g_def by code_simp+
  have "1 \<le> (4::int) \<and> \<not> accepted T b g 4 \<and> \<not> accepted T b g (4 + 1) \<and> \<not> accepted T b g (4 + 2)"
    using ok by simp
  then have "\<exists>m. 1 \<le> m \<and> \<not> accepted T b g m \<and> \<not> accepted T b g (m + 1) \<and> \<not> accepted T b g (m + 2)"
    by (rule exI)
  with discover_image_urls_terminates_iff[of T b g]
  have "discover_image_urls T b g \<noteq> None" by blast
  then obtain urls probed where s: "discover_image_urls T b g = Some (urls, probed)" by auto
  with discover_image_urls_terminates_iff[of T b g] obtain m where
    m1: "1 \<le> m" and w: "\<not> accepted T b g m" "\<not> accepted T b g (m + 1)" "\<not> accepted T b g (m + 2)"
    and first: "\<forall>j. 1 \<le> j \<and> j < m \<longrightarrow> accepted T b g j \<or> accepted T b g (j + 1) \<or> accepted T b g (j + 2)"
    and p: "probed = map (image_url b g) [1 .. m + 2]"
    and u: "urls = map (image_url b g) (filter (accepted T b g) [1 .. m + 2])"
    by blast
  have m4: "m = 4"
  proof (rule ccontr)
    assume "m \<noteq> 4"
    with m1 consider "m = 1" | "m = 2" | "m = 3" | "5 \<le> m" by arith
    then show False
    proof cases
      case 1
      with w(1) ok(1) show False by simp
    next
      case 2
      with w(2) ok(3) show False by simp
    next
      case 3
      with w(1) ok(3) show False by simp
    next
      case 4
      then have "1 \<le> (4::int) \<and> 4 < m" by simp
      with first have "accepted T b g 4 \<or> accepted T b g (4 + 1) \<or> accepted T b g (4 + 2)" by blast
      with ok show False by simp
    qed
  qed
  have range: "[1 .. m + 2] = [1, 2, 3, 4, 5, 6]" unfolding m4 using upto_1_6 by simp
  have "filter (accepted T b g) [1, 2, 3, 4, 5, 6] = [1, 3]" using ok by simp
  with u range have u': "urls = map (image_url b g) [1, 3]" by simp
  from p range have p': "probed = map (image_url b g) [1, 2, 3, 4, 5, 6]" by simp
  have e1: "map (image_url b g) [1, 3] =
      [''https://site.example/gallery42/images/gallery1.jpg'',
       ''https://site.example/gallery42/images/gallery3.jpg'']"
    unfolding b_def g_def by code_simp
  have e2: "map (image_url b g) [1, 2, 3, 4, 5, 6] =
      [''https://site.example/gallery42/images/gallery1.jpg'',
       ''https://site.example/gallery42/images/gallery2.jpg'',
       ''https://site.example/gallery42/images/gallery3.jpg'',
       ''https://site.example/gallery42/images/gallery4.jpg'',
       ''https://site.example/gallery42/images/gallery5.jpg'',
       ''https://site.example/gallery42/images/gallery6.jpg'']"
    unfolding b_def g_def by code_simp
  have some: "discover_image_urls T b g =
      Some ([''https://site.example/gallery42/images/gallery1.jpg'',
             ''https://site.example/gallery42/images/gallery3.jpg''],
            [''https://site.example/gallery42/images/gallery1.jpg'',
             ''https://site.example/gallery42/images/gallery2.jpg'',
             ''https://site.example/gallery42/images/gallery3.jpg'',
             ''https://site.example/gallery42/images/gallery4.jpg'',
             ''https://site.example/gallery42/images/gallery5.jpg'',
             ''https://site.example/gallery42/images/gallery6.jpg''])"
    unfolding s u' p' e1 e2 ..
  show ?thesis
  proof (intro conjI)
    show "\<forall>i. accepted serve_all ''https://site.example/gallery42'' ''gallery'' i"
      using all unfolding b_def g_def .
    show "discover_image_urls serve_all ''https://site.example/gallery42'' ''gallery'' = None"
      using none unfolding b_def g_def .
    show "discover_image_urls (serve_only [''https://site.example/gallery42/images/gallery1.jpg'',
       ''https://site.example/gallery42/images/gallery3.jpg''])
        ''https://site.example/gallery42'' ''gallery'' =
      Some ([''https://site.example/gallery42/images/gallery1.jpg'',
             ''https://site.example/gallery42/images/gallery3.jpg''],
            [''https://site.example/gallery42/images/gallery1.jpg'',
             ''https://site.example/gallery42/images/gallery2.jpg'',
             ''https://site.example/gallery42/images/gallery3.jpg'',
             ''https://site.example/gallery42/images/gallery4.jpg'',
             ''https://site.example/gallery42/images/gallery5.jpg'',
             ''https://site.example/gallery42/images/gallery6.jpg''])"
      using some unfolding T_def b_def g_def .
  qed
qed

end
